theory Spec2Isabelle
  imports Complex_Main "HOL-Library.Word"
begin

section \<open>Artemis Firmware Uploader GUI (AFU.py)\<close>

text \<open>
  A shallow embedding of \<^verbatim>\<open>RemoteWidget\<close> of AFU.py. The widget's attributes and the
  module global \<^verbatim>\<open>progressCount\<close> are the fields of one record; every handler takes the
  state and returns the new one. What the handlers get from outside (the serial ports
  enumerated by \<^verbatim>\<open>comports()\<close>, whether \<^verbatim>\<open>open(path)\<close> succeeds, the text read
  from the uploader's stdout) is a parameter of the handler.
\<close>

subsection \<open>Data model\<close>

text \<open>
  The data attached to a combobox item and the values kept by \<^verbatim>\<open>QSettings\<close> are Python
  objects: a \<^verbatim>\<open>str\<close> (a port device, the file location) or an \<^verbatim>\<open>int\<close> (a baud rate).
  Python's \<^verbatim>\<open>None\<close> is the \<open>None\<close> of \<open>qvariant option\<close>.
\<close>

datatype qvariant = VStr string | VInt int

text \<open>
  \<^verbatim>\<open>QComboBox\<close>: the items in order, each a display text with its data, and the current
  index (\<open>-1\<close> when there is no current item).
\<close>

record QComboBox =
  items :: "(string \<times> qvariant) list"
  currentIndex :: int

text \<open>One entry of \<^verbatim>\<open>serial.tools.list_ports.comports()\<close>; only the two attributes read.\<close>

record port_info =
  description :: string
  device :: string

text \<open>
  What \<^verbatim>\<open>on_upload_btn_pressed\<close> does to the outside world, in order: a file opened,
  a file handle closed, a process started with a command line.
\<close>

datatype effect = OpenFile string | CloseFile string | StartProcess string

record widget =
  fileLocation_lineedit :: string
  port_combobox :: QComboBox
  baud_combobox :: QComboBox
  status :: string
  progressCount :: int
  process :: "string option"
  effects :: "effect list"

subsection \<open>Python primitives\<close>

text \<open>\<^verbatim>\<open>needle in hay\<close> on \<^verbatim>\<open>str\<close>: \<open>needle\<close> occurs in \<open>hay\<close> as a contiguous run.\<close>

fun starts_with :: "string \<Rightarrow> string \<Rightarrow> bool" where
  "starts_with [] hay = True"
| "starts_with (c # cs) [] = False"
| "starts_with (c # cs) (h # hs) = (c = h \<and> starts_with cs hs)"

fun py_in :: "string \<Rightarrow> string \<Rightarrow> bool" where
  "py_in needle [] = (needle = [])"
| "py_in needle (h # hs) = (starts_with needle (h # hs) \<or> py_in needle hs)"

text \<open>\<^verbatim>\<open>s.count(c)\<close> for a one-character \<open>c\<close>.\<close>

fun py_count :: "string \<Rightarrow> char \<Rightarrow> int" where
  "py_count [] c = 0"
| "py_count (h # hs) c = (if h = c then 1 else 0) + py_count hs c"

text \<open>
  \<^verbatim>\<open>int(n / 3)\<close>: true division, then truncation towards zero (the quotient is exact
  in floating point for every count below \<open>2 ^ 53\<close>).
\<close>

definition int_div3 :: "int \<Rightarrow> int" where
  "int_div3 n = (if 0 \<le> n then n div 3 else - ((- n) div 3))"

subsection \<open>The stdout parser\<close>

text \<open>
  The loop \<^verbatim>\<open>for i in range(k): self.status.setText(self.status.text() + ".")\<close>;
  \<^verbatim>\<open>range(k)\<close> is empty for \<open>k \<le> 0\<close>.
\<close>

primrec add_dots :: "nat \<Rightarrow> string \<Rightarrow> string" where
  "add_dots 0 st = st"
| "add_dots (Suc k) st = add_dots k (st @ ''.'')"

text \<open>\<^verbatim>\<open>onReadyReadStandardOutput\<close>, with \<open>result\<close> the decoded text just read.\<close>

definition onReadyReadStandardOutput :: "string \<Rightarrow> widget \<Rightarrow> widget" where
  "onReadyReadStandardOutput result w =
     (if py_in ''complete'' result then w\<lparr>status := ''Complete''\<rparr>
      else if py_in ''failed'' result then w\<lparr>status := ''Upload Failed''\<rparr>
      else if py_in ''open'' result then w\<lparr>status := ''Port In Use / Please Close''\<rparr>
      else
        (let pc = progressCount w + py_count result CHR ''#''
         in w\<lparr>progressCount := pc, status := add_dots (nat (int_div3 pc)) (status w)\<rparr>))"

text \<open>\<^verbatim>\<open>onReadyReadStandardError\<close>: the status becomes the text read from stderr.\<close>

definition onReadyReadStandardError :: "string \<Rightarrow> widget \<Rightarrow> widget" where
  "onReadyReadStandardError error w = w\<lparr>status := error\<rparr>"

subsection \<open>The combobox and the settings store\<close>

text \<open>
  The operations of \<^verbatim>\<open>QComboBox\<close> that AFU.py calls, as Qt documents them:
  \<^verbatim>\<open>clear\<close> removes every item and leaves no current item; \<^verbatim>\<open>addItem\<close> appends
  an item, and an item added to an empty combobox becomes the current one;
  \<^verbatim>\<open>findData\<close> is the index of the first item with that data, or \<open>-1\<close>;
  \<^verbatim>\<open>setCurrentIndex\<close> with an index outside the items leaves no current item;
  \<^verbatim>\<open>currentData\<close> is the data of the current item, \<^verbatim>\<open>None\<close> without one.
\<close>

definition clear :: "QComboBox \<Rightarrow> QComboBox" where
  "clear cb = cb\<lparr>items := [], currentIndex := - 1\<rparr>"

definition addItem :: "string \<Rightarrow> qvariant \<Rightarrow> QComboBox \<Rightarrow> QComboBox" where
  "addItem text userData cb =
     cb\<lparr>items := items cb @ [(text, userData)],
        currentIndex := (if items cb = [] then 0 else currentIndex cb)\<rparr>"

fun find_from :: "qvariant \<Rightarrow> (string \<times> qvariant) list \<Rightarrow> int \<Rightarrow> int" where
  "find_from d [] i = - 1"
| "find_from d (x # xs) i = (if snd x = d then i else find_from d xs (i + 1))"

definition findData :: "QComboBox \<Rightarrow> qvariant \<Rightarrow> int" where
  "findData cb d = find_from d (items cb) 0"

definition setCurrentIndex :: "int \<Rightarrow> QComboBox \<Rightarrow> QComboBox" where
  "setCurrentIndex i cb =
     cb\<lparr>currentIndex := (if 0 \<le> i \<and> i < int (length (items cb)) then i else - 1)\<rparr>"

definition currentData :: "QComboBox \<Rightarrow> qvariant option" where
  "currentData cb =
     (if 0 \<le> currentIndex cb \<and> currentIndex cb < int (length (items cb))
      then Some (snd (items cb ! nat (currentIndex cb))) else None)"

text \<open>
  \<^verbatim>\<open>QSettings\<close> as a store from keys to values: \<^verbatim>\<open>value(key)\<close> is \<^verbatim>\<open>None\<close> for a
  key never set and for a key set to \<^verbatim>\<open>None\<close>; a value read back is the value set.
\<close>

type_synonym qsettings = "string \<Rightarrow> qvariant option"

definition setValue :: "string \<Rightarrow> qvariant option \<Rightarrow> qsettings \<Rightarrow> qsettings" where
  "setValue key v st = st(key := v)"

definition SETTING_PORT_NAME :: string where
  "SETTING_PORT_NAME = ''port_name''"

definition SETTING_FILE_LOCATION :: string where
  "SETTING_FILE_LOCATION = ''message''"

definition SETTING_BAUD_RATE :: string where
  "SETTING_BAUD_RATE = ''921600''"

subsection \<open>Properties and handlers of the widget\<close>

text \<open>The properties \<^verbatim>\<open>port\<close> and \<^verbatim>\<open>baudRate\<close>.\<close>

definition port :: "widget \<Rightarrow> qvariant option" where
  "port w = currentData (port_combobox w)"

definition baudRate :: "widget \<Rightarrow> qvariant option" where
  "baudRate w = currentData (baud_combobox w)"

text \<open>\<^verbatim>\<open>gen_serial_ports\<close>: the pairs (description, device) of the enumerated ports.\<close>

definition gen_serial_ports :: "port_info list \<Rightarrow> (string \<times> string) list" where
  "gen_serial_ports ports = map (\<lambda>p. (description p, device p)) ports"

text \<open>The loop of \<^verbatim>\<open>update_com_ports\<close> over the generator, and the method itself.\<close>

fun add_ports :: "(string \<times> string) list \<Rightarrow> QComboBox \<Rightarrow> QComboBox" where
  "add_ports [] cb = cb"
| "add_ports ((name, dev) # rest) cb = add_ports rest (addItem name (VStr dev) cb)"

definition update_com_ports :: "port_info list \<Rightarrow> widget \<Rightarrow> widget" where
  "update_com_ports ports w =
     w\<lparr>port_combobox := add_ports (gen_serial_ports ports) (clear (port_combobox w))\<rparr>"

definition update_baud_rates :: "widget \<Rightarrow> widget" where
  "update_baud_rates w =
     w\<lparr>baud_combobox :=
         addItem ''115200'' (VInt 115200)
           (addItem ''460800'' (VInt 460800)
             (addItem ''921600'' (VInt 921600) (baud_combobox w)))\<rparr>"

definition on_refresh_btn_pressed :: "port_info list \<Rightarrow> widget \<Rightarrow> widget" where
  "on_refresh_btn_pressed ports w = update_com_ports ports w"

text \<open>
  \<^verbatim>\<open>_load_settings\<close>. \<^verbatim>\<open>QLineEdit.setText\<close> takes a \<^verbatim>\<open>str\<close>: a stored file location
  that is not one raises \<^verbatim>\<open>TypeError\<close>, before the baud rate is looked at.
\<close>

datatype py_error = TypeError

definition load_port :: "qsettings \<Rightarrow> widget \<Rightarrow> widget" where
  "load_port st w =
     (case st SETTING_PORT_NAME of
        None \<Rightarrow> w
      | Some port_name \<Rightarrow>
          (let index = findData (port_combobox w) port_name
           in if index > - 1
              then w\<lparr>port_combobox := setCurrentIndex index (port_combobox w)\<rparr>
              else w))"

definition load_baud :: "qsettings \<Rightarrow> widget \<Rightarrow> widget" where
  "load_baud st w =
     (case st SETTING_BAUD_RATE of
        None \<Rightarrow> w
      | Some baud \<Rightarrow>
          (let index = findData (baud_combobox w) baud
           in if index > - 1
              then w\<lparr>baud_combobox := setCurrentIndex index (baud_combobox w)\<rparr>
              else w))"

definition load_settings :: "qsettings \<Rightarrow> widget \<Rightarrow> py_error + widget" where
  "load_settings st w =
     (let w1 = load_port st w
      in case st SETTING_FILE_LOCATION of
           None \<Rightarrow> Inr (load_baud st w1)
         | Some (VStr msg) \<Rightarrow> Inr (load_baud st (w1\<lparr>fileLocation_lineedit := msg\<rparr>))
         | Some (VInt n) \<Rightarrow> Inl TypeError)"

text \<open>\<^verbatim>\<open>_save_settings\<close>, and \<^verbatim>\<open>closeEvent\<close>, which saves and accepts the event.\<close>

definition save_settings :: "widget \<Rightarrow> qsettings \<Rightarrow> qsettings" where
  "save_settings w st =
     setValue SETTING_BAUD_RATE (baudRate w)
       (setValue SETTING_FILE_LOCATION (Some (VStr (fileLocation_lineedit w)))
         (setValue SETTING_PORT_NAME (port w) st))"

definition closeEvent :: "widget \<Rightarrow> qsettings \<Rightarrow> qsettings" where
  "closeEvent w st = save_settings w st"

text \<open>
  \<^verbatim>\<open>__init__\<close>: empty line edit, the port combobox filled from the enumeration, the
  three baud rates, status \<^verbatim>\<open>' '\<close>, then the settings loaded. The global
  \<^verbatim>\<open>progressCount\<close> starts at 1 and no process exists yet.
\<close>

definition new_widget :: widget where
  "new_widget =
     \<lparr>fileLocation_lineedit = [],
      port_combobox = \<lparr>items = [], currentIndex = - 1\<rparr>,
      baud_combobox = \<lparr>items = [], currentIndex = - 1\<rparr>,
      status = '' '', progressCount = 1, process = None, effects = []\<rparr>"

definition init :: "port_info list \<Rightarrow> qsettings \<Rightarrow> py_error + widget" where
  "init ports st = load_settings st (update_baud_rates (update_com_ports ports new_widget))"

subsection \<open>Starting an upload\<close>

text \<open>\<^verbatim>\<open>str(x)\<close> for the objects that reach the command line.\<close>

fun str_nat :: "nat \<Rightarrow> string" where
  "str_nat n =
     (if n < 10 then [''0123456789'' ! n]
      else str_nat (n div 10) @ [''0123456789'' ! (n mod 10)])"

definition str_int :: "int \<Rightarrow> string" where
  "str_int i = (if i < 0 then ''-'' @ str_nat (nat (- i)) else str_nat (nat i))"

fun py_str :: "qvariant option \<Rightarrow> string" where
  "py_str None = ''None''"
| "py_str (Some (VStr s)) = s"
| "py_str (Some (VInt i)) = str_int i"

text \<open>
  Decimal notation, to say what \<^verbatim>\<open>str\<close> of an \<^verbatim>\<open>int\<close> is: the number a string of digits
  denotes (most significant digit first), the integer a numeral with an optional minus
  sign denotes, and the canonical numerals: at least one digit, digits only, no leading
  zero except in \<^verbatim>\<open>0\<close> itself, and no \<^verbatim>\<open>-0\<close>.
\<close>

definition digit_of :: "char \<Rightarrow> nat" where
  "digit_of c = of_char c - 48"

definition is_digit :: "char \<Rightarrow> bool" where
  "is_digit c \<longleftrightarrow> c \<in> set ''0123456789''"

definition digits_value :: "string \<Rightarrow> nat" where
  "digits_value ds = foldl (\<lambda>v c. 10 * v + digit_of c) 0 ds"

definition canonical_nat :: "string \<Rightarrow> bool" where
  "canonical_nat ds \<longleftrightarrow> ds \<noteq> [] \<and> list_all is_digit ds \<and> (hd ds = CHR ''0'' \<longrightarrow> ds = ''0'')"

definition decimal_value :: "string \<Rightarrow> int" where
  "decimal_value s =
     (case s of
        [] \<Rightarrow> 0
      | c # r \<Rightarrow> if c = CHR ''-'' then - int (digits_value r) else int (digits_value s))"

definition canonical_decimal :: "string \<Rightarrow> bool" where
  "canonical_decimal s =
     (case s of
        [] \<Rightarrow> False
      | c # r \<Rightarrow> if c = CHR ''-'' then canonical_nat r \<and> r \<noteq> ''0'' else canonical_nat s)"

text \<open>
  The loop \<^verbatim>\<open>for p in ports: if (p.device == self.port): portAvailable = True\<close>; a
  \<^verbatim>\<open>str\<close> equals the selected data only when that is the same \<^verbatim>\<open>str\<close>.
\<close>

fun port_available :: "port_info list \<Rightarrow> qvariant option \<Rightarrow> bool \<Rightarrow> bool" where
  "port_available [] sel portAvailable = portAvailable"
| "port_available (p # ps) sel portAvailable =
     port_available ps sel (if Some (VStr (device p)) = sel then True else portAvailable)"

text \<open>The command line handed to \<^verbatim>\<open>QProcess.start\<close>.\<close>

definition command_line :: "widget \<Rightarrow> string" where
  "command_line w =
     ''artemis_svl.exe '' @ py_str (port w) @ '' -f'' @ [CHR 0x22]
       @ fileLocation_lineedit w @ [CHR 0x22] @ '' -b'' @ py_str (baudRate w)"

text \<open>
  \<^verbatim>\<open>on_upload_btn_pressed\<close>, with the ports enumerated at that moment and, as
  \<open>can_open\<close>, whether \<^verbatim>\<open>open\<close> succeeds on a path. When \<^verbatim>\<open>open\<close> raises, the
  \<^verbatim>\<open>finally\<close> block sets the status and returns (whatever was raised).
\<close>

definition on_upload_btn_pressed ::
  "port_info list \<Rightarrow> (string \<Rightarrow> bool) \<Rightarrow> widget \<Rightarrow> widget" where
  "on_upload_btn_pressed ports can_open w =
     (if \<not> port_available ports (port w) False
      then w\<lparr>status := ''Port No Longer Available''\<rparr>
      else if \<not> can_open (fileLocation_lineedit w)
      then w\<lparr>status := ''File Not Found''\<rparr>
      else
        w\<lparr>progressCount := 0,
          status := ''Uploading '',
          process := Some (command_line w),
          effects := effects w @
            [OpenFile (fileLocation_lineedit w), CloseFile (fileLocation_lineedit w),
             StartProcess (command_line w)]\<rparr>)"

declare str_nat.simps [simp del]

subsection \<open>An upload session as seen by the widget\<close>

text \<open>
  After \<^verbatim>\<open>on_upload_btn_pressed\<close> has started the uploader, the widget handles the
  chunks of its stdout one after the other.
\<close>

fun run_stdout :: "string list \<Rightarrow> widget \<Rightarrow> widget" where
  "run_stdout [] w = w"
| "run_stdout (c # cs) w = run_stdout cs (onReadyReadStandardOutput c w)"

text \<open>A chunk holding one of the three tokens that end the progress display.\<close>

definition terminal_chunk :: "string \<Rightarrow> bool" where
  "terminal_chunk c \<longleftrightarrow> py_in ''complete'' c \<or> py_in ''failed'' c \<or> py_in ''open'' c"

section \<open>The uploader's protocol engine\<close>

text \<open>
  The program that AFU.py starts is not part of the sources at hand. The definitions of
  this section follow the specification's description of its engine.
\<close>

subsection \<open>Image Segmenter\<close>

type_synonym byte = "8 word"

text \<open>A page: its 0-based index, its payload and the checksum of the payload.\<close>

record 'c page =
  index :: nat
  payload :: "byte list"
  checksum :: 'c

text \<open>
  Modelled from the spec: the Image Segmenter (\<^verbatim>\<open>segment(image, pageSize)\<close>), which is
  not in the sources. Page \<open>i\<close> is the slice of the image that starts at
  \<open>i * pageSize\<close>, at most \<open>pageSize\<close> bytes long, zero-filled up to \<open>pageSize\<close>; it is
  derived from the image alone. The checksum algorithm is left open by the
  specification and is the parameter \<open>ck\<close>.
\<close>

definition make_page :: "(byte list \<Rightarrow> 'c) \<Rightarrow> byte list \<Rightarrow> nat \<Rightarrow> nat \<Rightarrow> 'c page" where
  "make_page ck img pageSize i =
     (let slice = take pageSize (drop (i * pageSize) img);
          bytes = slice @ replicate (pageSize - length slice) 0
      in \<lparr>index = i, payload = bytes, checksum = ck bytes\<rparr>)"

text \<open>
  Modelled from the spec: the sequence of pages that \<^verbatim>\<open>segment\<close> produces, page after
  page in increasing index order for as long as bytes of the image remain. The
  specification defines it for a positive page size only; here a page size of zero
  gives no page.
\<close>

function segment_from :: "(byte list \<Rightarrow> 'c) \<Rightarrow> byte list \<Rightarrow> nat \<Rightarrow> nat \<Rightarrow> 'c page list" where
  "segment_from ck img pageSize i =
     (if 0 < pageSize \<and> i * pageSize < length img
      then make_page ck img pageSize i # segment_from ck img pageSize (Suc i)
      else [])"
  by pat_completeness auto
termination
  by (relation "measure (\<lambda>(ck, img, pageSize, i). length img - i * pageSize)") auto

declare segment_from.simps [simp del]

definition segment :: "(byte list \<Rightarrow> 'c) \<Rightarrow> byte list \<Rightarrow> nat \<Rightarrow> 'c page list" where
  "segment ck img pageSize = segment_from ck img pageSize 0"

subsection \<open>The page loop of the Protocol State Machine\<close>

text \<open>The fatal error kinds of the specification's taxonomy.\<close>

datatype failure =
  PortUnavailable | PortClosed | HandshakeTimeout | PageTransferFailed nat
  | VerificationMismatch | SessionBusy | Cancelled

text \<open>
  What one exchange on the link brings after a page frame was sent: an acknowledgement
  carrying a page index, no acknowledgement within the timeout, a frame that fails its
  checksum, or a fatal failure of the transport (the port unavailable or closed).
\<close>

datatype link_failure = LinkUnavailable | LinkClosed

datatype reply = Ack nat | Timeout | ChecksumError | Fatal link_failure

fun cause_of :: "link_failure \<Rightarrow> failure" where
  "cause_of LinkUnavailable = PortUnavailable"
| "cause_of LinkClosed = PortClosed"

text \<open>The states in which \<^verbatim>\<open>TransferringPages\<close> ends.\<close>

datatype session_state = Verifying | Failed failure

text \<open>
  An exchange as the engine sees it: the reply, and whether the caller has requested
  cancellation by the time the exchange is complete. The link is the list of the
  exchanges to come; a link that has run out stays silent.
\<close>

type_synonym exchange = "reply \<times> bool"

definition exchange_at :: "exchange list \<Rightarrow> nat \<Rightarrow> exchange" where
  "exchange_at xs k = (if k < length xs then xs ! k else (Timeout, False))"

text \<open>
  Modelled from the spec: what the state machine (not in the sources) does after the
  exchange for page \<open>i\<close>. A fatal transport failure ends the session with that cause;
  then the cancellation flag is checked; an acknowledgement of index \<open>i\<close> moves on to
  the next page; anything else (a timeout, a checksum error, an acknowledgement of another
  index) calls for the same page again.
\<close>

datatype verdict = Advance | Retry | Abort failure

fun judge :: "nat \<Rightarrow> exchange \<Rightarrow> verdict" where
  "judge i (Fatal f, cancel) = Abort (cause_of f)"
| "judge i (r, True) = Abort Cancelled"
| "judge i (Ack j, False) = (if j = i then Advance else Retry)"
| "judge i (r, False) = Retry"

text \<open>
  Modelled from the spec: the \<^verbatim>\<open>TransferringPages\<close> loop of the state machine (not in
  the sources), from page \<open>i\<close> on with \<open>attempts\<close> sends of page \<open>i\<close> already made. It
  returns the state the loop ends in and the page indices sent, in order. Every page is
  sent at most \<open>limit\<close> times (the configured retry limit, counted in attempts as in the
  specification's example); when they are used up the session fails with
  \<^verbatim>\<open>PageTransferFailed\<close> of that index.
\<close>

function transfer_pages ::
  "nat \<Rightarrow> nat \<Rightarrow> exchange list \<Rightarrow> nat \<Rightarrow> nat \<Rightarrow> session_state \<times> nat list" where
  "transfer_pages pageCount limit xs i attempts =
     (if pageCount \<le> i then (Verifying, [])
      else if limit \<le> attempts then (Failed (PageTransferFailed i), [])
      else
        (case judge i (exchange_at xs 0) of
           Abort cause \<Rightarrow> (Failed cause, [i])
         | Advance \<Rightarrow>
             (let rest = transfer_pages pageCount limit (tl xs) (Suc i) 0
              in (fst rest, i # snd rest))
         | Retry \<Rightarrow>
             (let rest = transfer_pages pageCount limit (tl xs) i (Suc attempts)
              in (fst rest, i # snd rest))))"
  by pat_completeness auto
termination
  by (relation "measures [\<lambda>(pageCount, limit, xs, i, attempts). pageCount - i,
                          \<lambda>(pageCount, limit, xs, i, attempts). limit - attempts]") auto

declare transfer_pages.simps [simp del]

subsection \<open>Example inputs\<close>

definition com3 :: port_info where
  "com3 = \<lparr>description = ''USB-SERIAL CH340 (COM3)'', device = ''COM3''\<rparr>"

definition com4 :: port_info where
  "com4 = \<lparr>description = ''USB Serial Device (COM4)'', device = ''COM4''\<rparr>"

text \<open>A widget with COM3 and 921600 selected and a firmware file chosen.\<close>

definition sample_widget :: widget where
  "sample_widget =
     \<lparr>fileLocation_lineedit = ''fw.bin'',
      port_combobox = \<lparr>items = [(''USB-SERIAL CH340 (COM3)'', VStr ''COM3'')], currentIndex = 0\<rparr>,
      baud_combobox =
        \<lparr>items = [(''921600'', VInt 921600), (''460800'', VInt 460800),
                  (''115200'', VInt 115200)],
         currentIndex = 0\<rparr>,
      status = '' '', progressCount = 1, process = None, effects = []\<rparr>"

text \<open>A file system on which every \<^verbatim>\<open>open\<close> succeeds.\<close>

definition every_file_opens :: "string \<Rightarrow> bool" where
  "every_file_opens path = True"

text \<open>The sample widget after Upload was pressed and one chunk \<^verbatim>\<open>###\<close> was read.\<close>

definition busy_widget :: widget where
  "busy_widget = run_stdout [''###''] (on_upload_btn_pressed [com3] every_file_opens sample_widget)"

text \<open>The sample widget with 460800 selected, and the widget built at the next start.\<close>

definition closing_widget :: widget where
  "closing_widget = sample_widget\<lparr>baud_combobox := setCurrentIndex 1 (baud_combobox sample_widget)\<rparr>"

definition starting_widget :: widget where
  "starting_widget = update_baud_rates (update_com_ports [com4, com3] new_widget)"

text \<open>
  An additive checksum, one of the strategies the specification allows, and the image of
  the specification's example: 1034 bytes, to be cut into pages of 512.
\<close>

definition additive_checksum :: "byte list \<Rightarrow> byte" where
  "additive_checksum bytes = sum_list bytes"

definition sample_image :: "byte list" where
  "sample_image = replicate 1034 0xFF"

text \<open>
  A link on which page 0 is acknowledged and page 1 never is: a timeout, an
  acknowledgement of the wrong index, a frame with a bad checksum. And a link on which
  page 1 gets through at the third attempt.
\<close>

definition failing_link :: "exchange list" where
  "failing_link = [(Ack 0, False), (Timeout, False), (Ack 0, False), (ChecksumError, False)]"

definition noisy_link :: "exchange list" where
  "noisy_link =
     [(Ack 0, False), (Timeout, False), (Ack 0, False), (Ack 1, False), (Ack 2, False)]"

subsection \<open>Facts about the primitives\<close>

lemma starts_with_iff: "starts_with needle hay \<longleftrightarrow> (\<exists>q. hay = needle @ q)"
  by (induction needle hay rule: starts_with.induct) auto

lemma py_in_iff: "py_in needle hay \<longleftrightarrow> (\<exists>p q. hay = p @ needle @ q)"
proof (induction hay)
  case Nil
  then show ?case by auto
next
  case (Cons h hs)
  have "(\<exists>p q. h # hs = p @ needle @ q) \<longleftrightarrow>
        (\<exists>q. h # hs = needle @ q) \<or> (\<exists>p q. hs = p @ needle @ q)"
  proof
    assume "\<exists>p q. h # hs = p @ needle @ q"
    then obtain p q where pq: "h # hs = p @ needle @ q" by blast
    show "(\<exists>q. h # hs = needle @ q) \<or> (\<exists>p q. hs = p @ needle @ q)"
    proof (cases p)
      case Nil
      with pq show ?thesis by auto
    next
      case (Cons a p')
      with pq have "hs = p' @ needle @ q" by simp
      then show ?thesis by blast
    qed
  next
    assume "(\<exists>q. h # hs = needle @ q) \<or> (\<exists>p q. hs = p @ needle @ q)"
    then show "\<exists>p q. h # hs = p @ needle @ q"
    proof
      assume "\<exists>q. h # hs = needle @ q"
      then obtain q where "h # hs = [] @ needle @ q" by auto
      then show ?thesis by blast
    next
      assume "\<exists>p q. hs = p @ needle @ q"
      then obtain p q where "hs = p @ needle @ q" by blast
      then have "h # hs = (h # p) @ needle @ q" by simp
      then show ?thesis by blast
    qed
  qed
  with Cons show ?case by (simp add: starts_with_iff)
qed

lemma py_count_eq: "py_count s c = int (length (filter (\<lambda>x. x = c) s))"
  by (induction s) auto

lemma py_count_nonneg: "0 \<le> py_count s c"
  by (simp add: py_count_eq)

lemma add_dots_eq: "add_dots k st = st @ replicate k CHR ''.''"
proof (induction k arbitrary: st)
  case 0
  then show ?case by simp
next
  case (Suc k)
  then show ?case by (simp add: replicate_app_Cons_same)
qed

lemma nat_int_div3: "nat (int_div3 n) = nat (n div 3)"
  by (simp add: int_div3_def)

lemma port_available_iff:
  "port_available ports sel acc \<longleftrightarrow> acc \<or> sel \<in> (\<lambda>p. Some (VStr (device p))) ` set ports"
  by (induction ports arbitrary: acc) auto

lemma find_from_found:
  "0 \<le> i \<Longrightarrow> d \<in> snd ` set xs \<Longrightarrow>
     i \<le> find_from d xs i \<and> find_from d xs i < i + int (length xs) \<and>
     snd (xs ! nat (find_from d xs i - i)) = d"
proof (induction xs arbitrary: i)
  case Nil
  then show ?case by simp
next
  case (Cons x xs)
  show ?case
  proof (cases "snd x = d")
    case True
    then show ?thesis by simp
  next
    case False
    with Cons.prems have "d \<in> snd ` set xs" by auto
    with Cons.IH [of "i + 1"] Cons.prems(1)
    have ih: "i + 1 \<le> find_from d xs (i + 1)"
      "find_from d xs (i + 1) < i + 1 + int (length xs)"
      "snd (xs ! nat (find_from d xs (i + 1) - (i + 1))) = d"
      by auto
    from ih(1) have "nat (find_from d xs (i + 1) - i) = Suc (nat (find_from d xs (i + 1) - (i + 1)))"
      by linarith
    with ih False show ?thesis by simp
  qed
qed

lemma find_from_absent: "d \<notin> snd ` set xs \<Longrightarrow> find_from d xs i = - 1"
  by (induction xs arbitrary: i) auto

lemma findData_iff: "findData cb d > - 1 \<longleftrightarrow> d \<in> snd ` set (items cb)"
proof
  assume "findData cb d > - 1"
  then show "d \<in> snd ` set (items cb)"
    using find_from_absent [of d "items cb" 0] by (auto simp: findData_def)
next
  assume "d \<in> snd ` set (items cb)"
  then show "findData cb d > - 1"
    using find_from_found [of 0 d "items cb"] by (simp add: findData_def)
qed

lemma currentData_setCurrentIndex_findData:
  assumes "d \<in> snd ` set (items cb)"
  shows "currentData (setCurrentIndex (findData cb d) cb) = Some d"
  using find_from_found [of 0 d "items cb"] assms
  by (simp add: findData_def currentData_def setCurrentIndex_def)

lemma items_add_ports:
  "items (add_ports ps cb) = items cb @ map (\<lambda>(name, dev). (name, VStr dev)) ps"
  by (induction ps cb rule: add_ports.induct) (simp_all add: addItem_def)

lemma run_stdout_append: "run_stdout (cs @ ds) w = run_stdout ds (run_stdout cs w)"
  by (induction cs arbitrary: w) simp_all

lemma progressCount_step: "progressCount w \<le> progressCount (onReadyReadStandardOutput c w)"
  by (simp add: onReadyReadStandardOutput_def Let_def py_count_nonneg)

lemma progressCount_run: "progressCount w \<le> progressCount (run_stdout cs w)"
proof (induction cs arbitrary: w)
  case Nil
  then show ?case by simp
next
  case (Cons c cs)
  have "progressCount w \<le> progressCount (onReadyReadStandardOutput c w)"
    by (rule progressCount_step)
  also have "\<dots> \<le> progressCount (run_stdout cs (onReadyReadStandardOutput c w))"
    by (rule Cons.IH)
  finally show ?case by simp
qed

lemma load_port_data:
  "port (load_port st w) =
     (if st SETTING_PORT_NAME \<in> Some ` snd ` set (items (port_combobox w))
      then st SETTING_PORT_NAME else port w)"
proof (cases "st SETTING_PORT_NAME")
  case None
  then show ?thesis by (auto simp: load_port_def)
next
  case (Some v)
  show ?thesis
  proof (cases "v \<in> snd ` set (items (port_combobox w))")
    case True
    with Some show ?thesis
      using findData_iff [of "port_combobox w" v]
      by (simp add: load_port_def port_def currentData_setCurrentIndex_findData image_iff)
  next
    case False
    with Some show ?thesis
      using findData_iff [of "port_combobox w" v]
      by (auto simp: load_port_def)
  qed
qed

lemma load_baud_data:
  "baudRate (load_baud st w) =
     (if st SETTING_BAUD_RATE \<in> Some ` snd ` set (items (baud_combobox w))
      then st SETTING_BAUD_RATE else baudRate w)"
proof (cases "st SETTING_BAUD_RATE")
  case None
  then show ?thesis by (auto simp: load_baud_def)
next
  case (Some v)
  show ?thesis
  proof (cases "v \<in> snd ` set (items (baud_combobox w))")
    case True
    with Some show ?thesis
      using findData_iff [of "baud_combobox w" v]
      by (simp add: load_baud_def baudRate_def currentData_setCurrentIndex_findData image_iff)
  next
    case False
    with Some show ?thesis
      using findData_iff [of "baud_combobox w" v]
      by (auto simp: load_baud_def)
  qed
qed

lemma load_port_fields:
  "items (port_combobox (load_port st w)) = items (port_combobox w)"
  "baud_combobox (load_port st w) = baud_combobox w"
  "fileLocation_lineedit (load_port st w) = fileLocation_lineedit w"
  by (simp_all add: load_port_def setCurrentIndex_def Let_def split: option.split)

lemma load_baud_fields:
  "items (baud_combobox (load_baud st w)) = items (baud_combobox w)"
  "port_combobox (load_baud st w) = port_combobox w"
  "fileLocation_lineedit (load_baud st w) = fileLocation_lineedit w"
  by (simp_all add: load_baud_def setCurrentIndex_def Let_def split: option.split)

lemma save_settings_values:
  "save_settings w st SETTING_PORT_NAME = port w"
  "save_settings w st SETTING_FILE_LOCATION = Some (VStr (fileLocation_lineedit w))"
  "save_settings w st SETTING_BAUD_RATE = baudRate w"
  by (simp_all add: save_settings_def setValue_def SETTING_PORT_NAME_def
      SETTING_FILE_LOCATION_def SETTING_BAUD_RATE_def)

lemma sample_widget_selection:
  "port sample_widget = Some (VStr ''COM3'')"
  "py_str (baudRate sample_widget) = ''921600''"
  "fileLocation_lineedit sample_widget = ''fw.bin''"
  by (simp_all add: port_def baudRate_def currentData_def sample_widget_def str_int_def
      str_nat.simps)

lemma command_line_sample:
  "command_line sample_widget =
     ''artemis_svl.exe COM3 -f'' @ [CHR 0x22] @ ''fw.bin'' @ [CHR 0x22] @ '' -b921600''"
  by (simp add: command_line_def sample_widget_selection)

lemma sample_widget_started:
  "on_upload_btn_pressed [com3] every_file_opens sample_widget =
     sample_widget\<lparr>progressCount := 0, status := ''Uploading '',
       process := Some (command_line sample_widget),
       effects := [OpenFile ''fw.bin'', CloseFile ''fw.bin'',
                   StartProcess (command_line sample_widget)]\<rparr>"
  by (simp add: on_upload_btn_pressed_def sample_widget_selection com3_def
      every_file_opens_def) (simp add: sample_widget_def)

lemma busy_widget_eq:
  "busy_widget =
     sample_widget\<lparr>progressCount := 3, status := ''Uploading .'',
       process := Some (command_line sample_widget),
       effects := [OpenFile ''fw.bin'', CloseFile ''fw.bin'',
                   StartProcess (command_line sample_widget)]\<rparr>"
  by (simp add: busy_widget_def sample_widget_started onReadyReadStandardOutput_def
      int_div3_def)

lemma busy_widget_selection:
  "port busy_widget = Some (VStr ''COM3'')"
  "fileLocation_lineedit busy_widget = ''fw.bin''"
  "command_line busy_widget = command_line sample_widget"
  by (simp_all add: busy_widget_eq port_def baudRate_def command_line_def
      sample_widget_selection [unfolded port_def])

lemma digit_char:
  fixes n :: nat
  assumes "n < 10"
  shows "digit_of (''0123456789'' ! n) = n" and "is_digit (''0123456789'' ! n)"
proof -
  have table: "\<forall>k\<in>set [0..<10].
      digit_of (''0123456789'' ! k) = k \<and> is_digit (''0123456789'' ! k)"
    by (simp add: upt_rec digit_of_def is_digit_def)
  from assms have "n \<in> set [0..<10]"
    by simp
  with table show "digit_of (''0123456789'' ! n) = n" and "is_digit (''0123456789'' ! n)"
    by blast+
qed

lemma char_digit:
  assumes "is_digit c"
  shows "''0123456789'' ! digit_of c = c" and "digit_of c < 10" and "c \<noteq> CHR ''-''"
  using assms by (auto simp: is_digit_def digit_of_def)

lemma digits_value_snoc: "digits_value (ds @ [c]) = 10 * digits_value ds + digit_of c"
  by (simp add: digits_value_def)

lemma digits_value_single: "digits_value [c] = digit_of c"
  by (simp add: digits_value_def)

lemma str_nat_small: "n < 10 \<Longrightarrow> str_nat n = [''0123456789'' ! n]"
  by (subst str_nat.simps) simp

lemma str_nat_large:
  "\<not> n < 10 \<Longrightarrow> str_nat n = str_nat (n div 10) @ [''0123456789'' ! (n mod 10)]"
  by (subst str_nat.simps) simp

lemma str_nat_not_Nil: "str_nat n \<noteq> []"
  by (cases "n < 10") (simp_all add: str_nat_small str_nat_large)

lemma digits_value_str_nat: "digits_value (str_nat n) = n"
proof (induction n rule: str_nat.induct)
  case (1 n)
  show ?case
  proof (cases "n < 10")
    case True
    then show ?thesis
      by (simp add: str_nat_small digits_value_single digit_char)
  next
    case False
    with 1 have "digits_value (str_nat (n div 10)) = n div 10"
      by simp
    with False show ?thesis
      by (simp add: str_nat_large digits_value_snoc digit_char)
  qed
qed

lemma digits_str_nat: "list_all is_digit (str_nat n)"
proof (induction n rule: str_nat.induct)
  case (1 n)
  show ?case
  proof (cases "n < 10")
    case True
    then show ?thesis
      by (simp add: str_nat_small digit_char)
  next
    case False
    with 1 have "list_all is_digit (str_nat (n div 10))"
      by simp
    with False show ?thesis
      by (simp add: str_nat_large digit_char)
  qed
qed

lemma digits_value_zero: "digits_value ''0'' = 0"
  by (simp add: digits_value_def digit_of_def)

lemma hd_str_nat: "hd (str_nat n) = CHR ''0'' \<Longrightarrow> n = 0"
proof (induction n rule: str_nat.induct)
  case (1 n)
  show ?case
  proof (cases "n < 10")
    case True
    with 1(2) have "''0123456789'' ! n = CHR ''0''"
      by (simp add: str_nat_small)
    then have "digit_of (''0123456789'' ! n) = digit_of CHR ''0''"
      by simp
    with True show ?thesis
      by (simp add: digit_char) (simp add: digit_of_def)
  next
    case False
    with 1(2) have "hd (str_nat (n div 10)) = CHR ''0''"
      by (simp add: str_nat_large str_nat_not_Nil)
    with 1(1) False have "n div 10 = 0"
      by simp
    with False show ?thesis
      by simp
  qed
qed

lemma str_nat_zero: "str_nat 0 = ''0''"
  by (simp add: str_nat_small)

lemma canonical_str_nat: "canonical_nat (str_nat n)"
  using hd_str_nat [of n] by (auto simp: canonical_nat_def str_nat_not_Nil digits_str_nat str_nat_zero)

lemma str_nat_digits_value: "canonical_nat ds \<Longrightarrow> str_nat (digits_value ds) = ds"
proof (induction ds rule: rev_induct)
  case Nil
  then show ?case by (simp add: canonical_nat_def)
next
  case (snoc c xs)
  from snoc.prems have c: "is_digit c" and xs: "list_all is_digit xs"
    by (simp_all add: canonical_nat_def)
  show ?case
  proof (cases "xs = []")
    case True
    with c show ?thesis
      by (simp add: digits_value_single str_nat_small char_digit)
  next
    case False
    have nz: "hd xs \<noteq> CHR ''0''"
    proof
      assume "hd xs = CHR ''0''"
      with False have "hd (xs @ [c]) = CHR ''0''"
        by simp
      with snoc.prems have "xs @ [c] = ''0''"
        by (simp add: canonical_nat_def)
      with False show False
        by (cases xs) simp_all
    qed
    with False xs have can: "canonical_nat xs"
      by (simp add: canonical_nat_def)
    then have ih: "str_nat (digits_value xs) = xs"
      by (rule snoc.IH)
    have "digits_value xs \<noteq> 0"
    proof
      assume "digits_value xs = 0"
      with ih have "xs = ''0''"
        by (simp add: str_nat_zero)
      with nz show False
        by simp
    qed
    then have big: "\<not> 10 * digits_value xs + digit_of c < 10"
      by simp
    from c have d: "digit_of c < 10"
      by (rule char_digit)
    then have "(10 * digits_value xs + digit_of c) div 10 = digits_value xs"
      "(10 * digits_value xs + digit_of c) mod 10 = digit_of c"
      by simp_all
    with big ih c show ?thesis
      by (simp add: digits_value_snoc str_nat_large char_digit)
  qed
qed

lemma decimal_value_str_int: "decimal_value (str_int i) = i"
proof (cases "i < 0")
  case True
  then show ?thesis
    by (simp add: str_int_def decimal_value_def digits_value_str_nat)
next
  case False
  obtain c r where cr: "str_nat (nat i) = c # r"
    using str_nat_not_Nil [of "nat i"] by (cases "str_nat (nat i)") auto
  with digits_str_nat [of "nat i"] have "is_digit c"
    by simp
  then have "c \<noteq> CHR ''-''"
    by (rule char_digit)
  with False cr digits_value_str_nat [of "nat i"] show ?thesis
    by (simp add: str_int_def decimal_value_def)
qed

lemma canonical_str_int: "canonical_decimal (str_int i)"
proof (cases "i < 0")
  case True
  have "str_nat (nat (- i)) \<noteq> ''0''"
  proof
    assume "str_nat (nat (- i)) = ''0''"
    then have "digits_value (str_nat (nat (- i))) = 0"
      by (simp add: digits_value_zero)
    with True show False
      by (simp add: digits_value_str_nat)
  qed
  with True show ?thesis
    by (simp add: str_int_def canonical_decimal_def canonical_str_nat)
next
  case False
  obtain c r where cr: "str_nat (nat i) = c # r"
    using str_nat_not_Nil [of "nat i"] by (cases "str_nat (nat i)") auto
  with digits_str_nat [of "nat i"] have "is_digit c"
    by simp
  then have "c \<noteq> CHR ''-''"
    by (rule char_digit)
  with False cr canonical_str_nat [of "nat i"] show ?thesis
    by (simp add: str_int_def canonical_decimal_def)
qed

lemma str_int_decimal_value: "canonical_decimal s \<Longrightarrow> str_int (decimal_value s) = s"
proof (cases s)
  case Nil
  assume "canonical_decimal s"
  with Nil show ?thesis by (simp add: canonical_decimal_def)
next
  case (Cons c r)
  assume can: "canonical_decimal s"
  show ?thesis
  proof (cases "c = CHR ''-''")
    case True
    with can Cons have r: "canonical_nat r" "r \<noteq> ''0''"
      by (simp_all add: canonical_decimal_def)
    then have inv: "str_nat (digits_value r) = r"
      by (simp add: str_nat_digits_value)
    have "digits_value r \<noteq> 0"
    proof
      assume "digits_value r = 0"
      with inv r(2) show False by (simp add: str_nat_zero)
    qed
    with True Cons inv show ?thesis
      by (simp add: decimal_value_def str_int_def)
  next
    case False
    with can Cons have "canonical_nat s"
      by (simp add: canonical_decimal_def)
    then have "str_nat (digits_value s) = s"
      by (rule str_nat_digits_value)
    with False Cons show ?thesis
      by (simp add: decimal_value_def str_int_def)
  qed
qed

lemma str_int_unique: "canonical_decimal ds \<and> decimal_value ds = b \<longleftrightarrow> ds = str_int b"
proof
  assume "canonical_decimal ds \<and> decimal_value ds = b"
  then show "ds = str_int b"
    using str_int_decimal_value [of ds] by simp
next
  assume "ds = str_int b"
  then show "canonical_decimal ds \<and> decimal_value ds = b"
    by (simp add: decimal_value_str_int canonical_str_int)
qed

lemma baud_items_update_baud_rates:
  "items (baud_combobox w) = [] \<Longrightarrow>
     baud_combobox (update_baud_rates w) =
       (baud_combobox w)\<lparr>items := [(''921600'', VInt 921600), (''460800'', VInt 460800),
                                    (''115200'', VInt 115200)],
                          currentIndex := 0\<rparr>"
  by (simp add: update_baud_rates_def addItem_def)

lemma baudRate_after_init:
  assumes "init ports st = Inr w"
  shows "baudRate w \<in> {Some (VInt 921600), Some (VInt 460800), Some (VInt 115200)}"
proof -
  let ?w0 = "update_baud_rates (update_com_ports ports new_widget)"
  have "items (baud_combobox (update_com_ports ports new_widget)) = []"
    by (simp add: update_com_ports_def new_widget_def)
  then have b0: "baud_combobox ?w0 =
      \<lparr>items = [(''921600'', VInt 921600), (''460800'', VInt 460800), (''115200'', VInt 115200)],
       currentIndex = 0\<rparr>"
    by (simp add: baud_items_update_baud_rates update_com_ports_def new_widget_def)
  have step: "baudRate (load_baud st w') \<in>
      {Some (VInt 921600), Some (VInt 460800), Some (VInt 115200)}"
    if w': "baud_combobox w' = baud_combobox ?w0" for w'
  proof -
    from w' have cur: "baudRate w' = Some (VInt 921600)"
      by (simp add: b0 baudRate_def currentData_def)
    from w' have all: "Some ` snd ` set (items (baud_combobox w'))
        = {Some (VInt 921600), Some (VInt 460800), Some (VInt 115200)}"
      by (simp add: b0)
    have "baudRate (load_baud st w') =
        (if st SETTING_BAUD_RATE \<in> Some ` snd ` set (items (baud_combobox w'))
         then st SETTING_BAUD_RATE else baudRate w')"
      by (rule load_baud_data)
    then show ?thesis
      unfolding all cur by (cases "st SETTING_BAUD_RATE \<in>
        {Some (VInt 921600), Some (VInt 460800), Some (VInt 115200)}") simp_all
  qed
  have p: "baud_combobox (load_port st ?w0) = baud_combobox ?w0"
    by (rule load_port_fields)
  show ?thesis
  proof (cases "st SETTING_FILE_LOCATION")
    case None
    with assms have "w = load_baud st (load_port st ?w0)"
      by (simp add: init_def load_settings_def)
    with step [OF p] show ?thesis
      by simp
  next
    case (Some v)
    show ?thesis
    proof (cases v)
      case (VStr msg)
      with Some assms have "w = load_baud st ((load_port st ?w0)\<lparr>fileLocation_lineedit := msg\<rparr>)"
        by (simp add: init_def load_settings_def)
      moreover have "baud_combobox ((load_port st ?w0)\<lparr>fileLocation_lineedit := msg\<rparr>)
          = baud_combobox ?w0"
        by (simp add: p)
      ultimately show ?thesis
        using step by simp
    next
      case (VInt k)
      with Some assms show ?thesis
        by (simp add: init_def load_settings_def)
    qed
  qed
qed

subsection \<open>Claims about the stdout parser\<close>

text \<open>
  C1. For every chunk of stdout text the parser takes exactly one of four branches, tried
  in this order: the chunk contains \<^verbatim>\<open>complete\<close> and the status becomes
  \<^verbatim>\<open>Complete\<close>; else it contains \<^verbatim>\<open>failed\<close> and the status becomes
  \<^verbatim>\<open>Upload Failed\<close>; else it contains \<^verbatim>\<open>open\<close> and the status becomes
  \<^verbatim>\<open>Port In Use / Please Close\<close>; else the number of \<^verbatim>\<open>#\<close> in the chunk is added
  to \<^verbatim>\<open>progressCount\<close> (and \<^verbatim>\<open>int(progressCount / 3)\<close> dots are appended to the status).
  In the three terminal branches nothing but the status changes.
\<close>

theorem parser_sets_one_status:
  "onReadyReadStandardOutput result w =
     (if \<exists>p q. result = p @ ''complete'' @ q then w\<lparr>status := ''Complete''\<rparr>
      else if \<exists>p q. result = p @ ''failed'' @ q then w\<lparr>status := ''Upload Failed''\<rparr>
      else if \<exists>p q. result = p @ ''open'' @ q
        then w\<lparr>status := ''Port In Use / Please Close''\<rparr>
      else w\<lparr>progressCount :=
                 progressCount w + int (length (filter (\<lambda>c. c = CHR ''#'') result)),
             status := status w @
                 replicate (nat ((progressCount w
                    + int (length (filter (\<lambda>c. c = CHR ''#'') result))) div 3)) CHR ''.''\<rparr>)"
  unfolding onReadyReadStandardOutput_def py_in_iff Let_def
  by (simp only: add_dots_eq nat_int_div3 py_count_eq)

theorem parser_sets_one_status_witness:
  "onReadyReadStandardOutput ''## upload failed, then complete''
      \<lparr>fileLocation_lineedit = ''fw.bin'',
       port_combobox = \<lparr>items = [], currentIndex = - 1\<rparr>,
       baud_combobox = \<lparr>items = [], currentIndex = - 1\<rparr>,
       status = ''Uploading '', progressCount = 4, process = None, effects = []\<rparr>
   = \<lparr>fileLocation_lineedit = ''fw.bin'',
       port_combobox = \<lparr>items = [], currentIndex = - 1\<rparr>,
       baud_combobox = \<lparr>items = [], currentIndex = - 1\<rparr>,
       status = ''Complete'', progressCount = 4, process = None, effects = []\<rparr>"
proof -
  have "\<exists>p q. ''## upload failed, then complete'' = p @ ''complete'' @ q"
    by (rule exI [of _ "''## upload failed, then ''"], rule exI [of _ "[]"]) simp
  then show ?thesis
    by (simp only: parser_sets_one_status if_True) simp
qed

subsection \<open>Claims about starting an upload\<close>

text \<open>
  C3. When the selected port device is not among the serial ports enumerated at the
  moment Upload is pressed (also when nothing is selected), the handler only sets the
  status to \<^verbatim>\<open>Port No Longer Available\<close> and returns: no file is opened, no process is
  started, nothing else changes.
\<close>

theorem upload_port_unavailable:
  assumes "port w \<notin> (\<lambda>p. Some (VStr (device p))) ` set ports"
  shows "on_upload_btn_pressed ports can_open w = w\<lparr>status := ''Port No Longer Available''\<rparr>
    \<and> process (on_upload_btn_pressed ports can_open w) = process w
    \<and> effects (on_upload_btn_pressed ports can_open w) = effects w"
  using assms by (simp add: on_upload_btn_pressed_def port_available_iff)

theorem upload_port_unavailable_witness:
  "port sample_widget \<notin> (\<lambda>p. Some (VStr (device p))) ` set [com4]
    \<and> on_upload_btn_pressed [com4] (\<lambda>path. True) sample_widget
        = sample_widget\<lparr>status := ''Port No Longer Available''\<rparr>
    \<and> effects (on_upload_btn_pressed [com4] (\<lambda>path. True) sample_widget) = []"
proof -
  have h: "port sample_widget \<notin> (\<lambda>p. Some (VStr (device p))) ` set [com4]"
    by (simp add: port_def currentData_def sample_widget_def com4_def)
  have "effects sample_widget = []"
    by (simp add: sample_widget_def)
  with h upload_port_unavailable [OF h, of "\<lambda>path. True"] show ?thesis
    by simp
qed

text \<open>
  C8. The uploader is started only if \<^verbatim>\<open>open\<close> succeeds on the path in the line edit.
  The file is opened once the port check has passed: if \<^verbatim>\<open>open\<close> raises, the handler
  only sets the status to \<^verbatim>\<open>File Not Found\<close> and returns; if it succeeds, the handle is
  closed before the process is started.
\<close>

theorem upload_file_check:
  "(\<not> can_open (fileLocation_lineedit w) \<longrightarrow>
      effects (on_upload_btn_pressed ports can_open w) = effects w
      \<and> process (on_upload_btn_pressed ports can_open w) = process w)
   \<and> (port w \<in> (\<lambda>p. Some (VStr (device p))) ` set ports
        \<and> \<not> can_open (fileLocation_lineedit w) \<longrightarrow>
      on_upload_btn_pressed ports can_open w = w\<lparr>status := ''File Not Found''\<rparr>)
   \<and> (port w \<in> (\<lambda>p. Some (VStr (device p))) ` set ports
        \<and> can_open (fileLocation_lineedit w) \<longrightarrow>
      effects (on_upload_btn_pressed ports can_open w) =
        effects w @ [OpenFile (fileLocation_lineedit w), CloseFile (fileLocation_lineedit w),
                     StartProcess (command_line w)])"
  by (simp add: on_upload_btn_pressed_def port_available_iff)

theorem upload_file_check_witness:
  "on_upload_btn_pressed [com3] (\<lambda>path. path = ''fw.bin'')
       (sample_widget\<lparr>fileLocation_lineedit := ''missing.bin''\<rparr>)
     = sample_widget\<lparr>fileLocation_lineedit := ''missing.bin'', status := ''File Not Found''\<rparr>
   \<and> effects (on_upload_btn_pressed [com3] (\<lambda>path. path = ''fw.bin'') sample_widget)
     = [OpenFile ''fw.bin'', CloseFile ''fw.bin'', StartProcess (command_line sample_widget)]"
proof -
  have p: "port sample_widget = Some (VStr ''COM3'')"
    "port (sample_widget\<lparr>fileLocation_lineedit := ''missing.bin''\<rparr>) = Some (VStr ''COM3'')"
    by (simp_all add: port_def currentData_def sample_widget_def)
  have f: "fileLocation_lineedit sample_widget = ''fw.bin''" "effects sample_widget = []"
    by (simp_all add: sample_widget_def)
  show ?thesis
    using upload_file_check [of "\<lambda>path. path = ''fw.bin''" sample_widget "[com3]"]
      upload_file_check [of "\<lambda>path. path = ''fw.bin''"
        "sample_widget\<lparr>fileLocation_lineedit := ''missing.bin''\<rparr>" "[com3]"]
    by (simp add: p f com3_def)
qed

text \<open>
  C9. When an upload is started (the selected device \<open>dev\<close> is enumerated and the file
  opens) with the baud rate \<open>b\<close> selected, the command line of the process is
  \<^verbatim>\<open>artemis_svl.exe\<close>, a space, the device, \<^verbatim>\<open> -f"\<close>, the path of the line edit,
  \<^verbatim>\<open>"\<close>, \<^verbatim>\<open> -b\<close> and the decimal numeral of \<open>b\<close>: the one canonical numeral that
  denotes \<open>b\<close>. This holds whatever the device, the path and the baud rate are. (The data
  of the baud combobox are integers: see \<open>baudRate_after_init\<close>.)
\<close>

theorem upload_command_line:
  assumes "port w = Some (VStr dev)" and "dev \<in> device ` set ports"
    and "baudRate w = Some (VInt b)"
    and "can_open (fileLocation_lineedit w)"
  shows "process (on_upload_btn_pressed ports can_open w) =
      Some (''artemis_svl.exe '' @ dev @ '' -f'' @ [CHR 0x22] @ fileLocation_lineedit w
            @ [CHR 0x22] @ '' -b'' @ str_int b)
    \<and> last (effects (on_upload_btn_pressed ports can_open w)) =
      StartProcess (''artemis_svl.exe '' @ dev @ '' -f'' @ [CHR 0x22] @ fileLocation_lineedit w
            @ [CHR 0x22] @ '' -b'' @ str_int b)
    \<and> (\<forall>ds. ds = str_int b \<longleftrightarrow> canonical_decimal ds \<and> decimal_value ds = b)"
proof -
  from assms(1,2) have "port w \<in> (\<lambda>p. Some (VStr (device p))) ` set ports"
    by auto
  with assms(1,3,4) have "process (on_upload_btn_pressed ports can_open w) =
      Some (''artemis_svl.exe '' @ dev @ '' -f'' @ [CHR 0x22] @ fileLocation_lineedit w
            @ [CHR 0x22] @ '' -b'' @ str_int b)
    \<and> last (effects (on_upload_btn_pressed ports can_open w)) =
      StartProcess (''artemis_svl.exe '' @ dev @ '' -f'' @ [CHR 0x22] @ fileLocation_lineedit w
            @ [CHR 0x22] @ '' -b'' @ str_int b)"
    by (simp add: on_upload_btn_pressed_def port_available_iff command_line_def)
  moreover have "\<forall>ds. ds = str_int b \<longleftrightarrow> canonical_decimal ds \<and> decimal_value ds = b"
    using str_int_unique [of _ b] by simp
  ultimately show ?thesis
    by simp
qed

theorem upload_command_line_witness:
  "process (on_upload_btn_pressed [com3] every_file_opens sample_widget) =
      Some (''artemis_svl.exe COM3 -f'' @ [CHR 0x22] @ ''fw.bin'' @ [CHR 0x22] @ '' -b921600'')
   \<and> process (on_upload_btn_pressed [com3] every_file_opens closing_widget) =
      Some (''artemis_svl.exe COM3 -f'' @ [CHR 0x22] @ ''fw.bin'' @ [CHR 0x22] @ '' -b460800'')
   \<and> process (on_upload_btn_pressed [com3] every_file_opens
        (sample_widget\<lparr>baud_combobox := setCurrentIndex 2 (baud_combobox sample_widget)\<rparr>)) =
      Some (''artemis_svl.exe COM3 -f'' @ [CHR 0x22] @ ''fw.bin'' @ [CHR 0x22] @ '' -b115200'')
   \<and> canonical_decimal ''460800'' \<and> decimal_value ''460800'' = 460800"
proof -
  let ?w2 = "sample_widget\<lparr>baud_combobox := setCurrentIndex 2 (baud_combobox sample_widget)\<rparr>"
  have d: "''COM3'' \<in> device ` set [com3]"
    by (simp add: com3_def)
  have o: "every_file_opens path" for path
    by (simp add: every_file_opens_def)
  have p: "port sample_widget = Some (VStr ''COM3'')"
    "port closing_widget = Some (VStr ''COM3'')" "port ?w2 = Some (VStr ''COM3'')"
    by (simp_all add: port_def currentData_def closing_widget_def sample_widget_def)
  have b: "baudRate sample_widget = Some (VInt 921600)"
    "baudRate closing_widget = Some (VInt 460800)" "baudRate ?w2 = Some (VInt 115200)"
    by (simp_all add: baudRate_def currentData_def setCurrentIndex_def closing_widget_def
        sample_widget_def)
  have f: "fileLocation_lineedit sample_widget = ''fw.bin''"
    "fileLocation_lineedit closing_widget = ''fw.bin''" "fileLocation_lineedit ?w2 = ''fw.bin''"
    by (simp_all add: closing_widget_def sample_widget_def)
  have s: "str_int 921600 = ''921600''" "str_int 460800 = ''460800''"
    "str_int 115200 = ''115200''"
    by (simp_all add: str_int_def str_nat.simps)
  note u1 = upload_command_line [OF p(1) d b(1) o]
    and u2 = upload_command_line [OF p(2) d b(2) o]
    and u3 = upload_command_line [OF p(3) d b(3) o]
  from u2 have "canonical_decimal (str_int 460800) \<and> decimal_value (str_int 460800) = 460800"
    by blast
  with u1 u2 u3 show ?thesis
    by (simp add: s f)
qed

subsection \<open>Claims about the port list\<close>

text \<open>
  C10. After \<^verbatim>\<open>update_com_ports\<close> (called by the constructor and by the Refresh
  button) the port combobox holds exactly one item per enumerated port, in enumeration
  order, with the description as text and the device as data, whatever it held before.
\<close>

theorem update_com_ports_items:
  "items (port_combobox (update_com_ports ports w))
      = map (\<lambda>p. (description p, VStr (device p))) ports
   \<and> items (port_combobox (on_refresh_btn_pressed ports w))
      = map (\<lambda>p. (description p, VStr (device p))) ports"
  by (simp add: on_refresh_btn_pressed_def update_com_ports_def items_add_ports clear_def
      gen_serial_ports_def comp_def)

theorem update_com_ports_items_witness:
  "items (port_combobox (on_refresh_btn_pressed [com4, com3] sample_widget))
     = [(''USB Serial Device (COM4)'', VStr ''COM4''), (''USB-SERIAL CH340 (COM3)'', VStr ''COM3'')]"
  using update_com_ports_items [of "[com4, com3]" sample_widget]
  by (simp add: com3_def com4_def)

subsection \<open>Claims about the settings\<close>

text \<open>
  C7. Closing the widget stores the current port device, the text of the file-location
  line edit and the current baud rate under the three fixed keys. Loading these settings
  into a widget built afterwards succeeds and sets the line edit to the stored text; the
  port (the baud rate) selected becomes the stored one exactly when that value is the data
  of one of the combobox's items, which is when \<^verbatim>\<open>findData\<close> returns an index above
  \<open>-1\<close>, and stays as it was otherwise. The items themselves are not changed.
\<close>

theorem settings_round_trip:
  "closeEvent w st SETTING_PORT_NAME = port w
   \<and> closeEvent w st SETTING_FILE_LOCATION = Some (VStr (fileLocation_lineedit w))
   \<and> closeEvent w st SETTING_BAUD_RATE = baudRate w
   \<and> (\<exists>w1. load_settings (closeEvent w st) w0 = Inr w1
        \<and> fileLocation_lineedit w1 = fileLocation_lineedit w
        \<and> port w1 = (if port w \<in> Some ` snd ` set (items (port_combobox w0))
                     then port w else port w0)
        \<and> baudRate w1 = (if baudRate w \<in> Some ` snd ` set (items (baud_combobox w0))
                         then baudRate w else baudRate w0)
        \<and> items (port_combobox w1) = items (port_combobox w0)
        \<and> items (baud_combobox w1) = items (baud_combobox w0))
   \<and> (\<forall>cb d. (findData cb d > - 1) = (d \<in> snd ` set (items cb)))"
proof -
  let ?st = "closeEvent w st"
  let ?w1 = "load_baud ?st ((load_port ?st w0)\<lparr>fileLocation_lineedit := fileLocation_lineedit w\<rparr>)"
  have vals: "?st SETTING_PORT_NAME = port w"
    "?st SETTING_FILE_LOCATION = Some (VStr (fileLocation_lineedit w))"
    "?st SETTING_BAUD_RATE = baudRate w"
    by (simp_all add: closeEvent_def save_settings_values)
  have ld: "load_settings ?st w0 = Inr ?w1"
    by (simp add: load_settings_def vals(2))
  have lt: "fileLocation_lineedit ?w1 = fileLocation_lineedit w"
    by (simp add: load_baud_fields)
  have "port ?w1 = port (load_port ?st w0)"
    by (simp add: port_def load_baud_fields)
  then have prt: "port ?w1 = (if port w \<in> Some ` snd ` set (items (port_combobox w0))
                     then port w else port w0)"
    by (simp add: load_port_data vals(1))
  have bc: "baud_combobox ((load_port ?st w0)\<lparr>fileLocation_lineedit := fileLocation_lineedit w\<rparr>)
      = baud_combobox w0"
    by (simp add: load_port_fields)
  then have br: "baudRate ((load_port ?st w0)\<lparr>fileLocation_lineedit := fileLocation_lineedit w\<rparr>)
      = baudRate w0"
    by (simp only: baudRate_def)
  have bd: "baudRate ?w1 = (if baudRate w \<in> Some ` snd ` set (items (baud_combobox w0))
                         then baudRate w else baudRate w0)"
    by (simp only: load_baud_data bc br vals(3))
  have it: "items (port_combobox ?w1) = items (port_combobox w0)"
    "items (baud_combobox ?w1) = items (baud_combobox w0)"
    by (simp_all add: load_baud_fields load_port_fields)
  from ld lt prt bd it
  have ex: "\<exists>w1. load_settings ?st w0 = Inr w1
        \<and> fileLocation_lineedit w1 = fileLocation_lineedit w
        \<and> port w1 = (if port w \<in> Some ` snd ` set (items (port_combobox w0))
                     then port w else port w0)
        \<and> baudRate w1 = (if baudRate w \<in> Some ` snd ` set (items (baud_combobox w0))
                         then baudRate w else baudRate w0)
        \<and> items (port_combobox w1) = items (port_combobox w0)
        \<and> items (baud_combobox w1) = items (baud_combobox w0)"
    by blast
  have fd: "\<forall>cb d. (findData cb d > - 1) = (d \<in> snd ` set (items cb))"
    by (simp add: findData_iff)
  from vals ex fd show ?thesis by blast
qed

theorem settings_round_trip_witness:
  "\<exists>w1. init [com4, com3] (closeEvent closing_widget (\<lambda>key. None)) = Inr w1
     \<and> fileLocation_lineedit w1 = ''fw.bin''
     \<and> port w1 = Some (VStr ''COM3'')
     \<and> baudRate w1 = Some (VInt 460800)"
proof -
  have c: "port closing_widget = Some (VStr ''COM3'')"
    "baudRate closing_widget = Some (VInt 460800)"
    "fileLocation_lineedit closing_widget = ''fw.bin''"
    by (simp_all add: closing_widget_def sample_widget_def port_def baudRate_def
        currentData_def setCurrentIndex_def)
  have s: "items (port_combobox starting_widget) =
      [(''USB Serial Device (COM4)'', VStr ''COM4''), (''USB-SERIAL CH340 (COM3)'', VStr ''COM3'')]"
    "items (baud_combobox starting_widget) =
      [(''921600'', VInt 921600), (''460800'', VInt 460800), (''115200'', VInt 115200)]"
    by (simp_all add: starting_widget_def update_baud_rates_def update_com_ports_def
        new_widget_def gen_serial_ports_def clear_def addItem_def com3_def com4_def)
  have i: "init [com4, com3] (closeEvent closing_widget (\<lambda>key. None))
      = load_settings (closeEvent closing_widget (\<lambda>key. None)) starting_widget"
    by (simp add: init_def starting_widget_def)
  show ?thesis
    using settings_round_trip [of closing_widget "\<lambda>key. None" starting_widget]
    by (simp add: i c s) blast
qed

subsection \<open>Claims about progress and about a second upload\<close>

text \<open>
  C2, as the code has it. Within a session \<^verbatim>\<open>progressCount\<close> never decreases, from
  one chunk to the next and over any further run of chunks. A chunk without a terminal
  token adds its number of \<^verbatim>\<open>#\<close> to \<^verbatim>\<open>progressCount\<close> and only appends dots to the
  status text. A chunk with a terminal token leaves \<^verbatim>\<open>progressCount\<close> as it is and
  replaces the status text by \<^verbatim>\<open>Complete\<close>, \<^verbatim>\<open>Upload Failed\<close> or
  \<^verbatim>\<open>Port In Use / Please Close\<close>. No percentage is computed.
\<close>

theorem progress_monotone:
  "progressCount w \<le> progressCount (onReadyReadStandardOutput c w)
   \<and> progressCount (run_stdout cs w) \<le> progressCount (run_stdout (cs @ ds) w)
   \<and> (\<not> terminal_chunk c \<longrightarrow>
        progressCount (onReadyReadStandardOutput c w)
          = progressCount w + int (length (filter (\<lambda>x. x = CHR ''#'') c))
        \<and> status (onReadyReadStandardOutput c w)
          = status w @ replicate (nat (progressCount (onReadyReadStandardOutput c w) div 3)) CHR ''.'')
   \<and> (terminal_chunk c \<longrightarrow>
        progressCount (onReadyReadStandardOutput c w) = progressCount w
        \<and> status (onReadyReadStandardOutput c w)
          \<in> {''Complete'', ''Upload Failed'', ''Port In Use / Please Close''})"
proof -
  have a: "progressCount w \<le> progressCount (onReadyReadStandardOutput c w)"
    by (rule progressCount_step)
  have b: "progressCount (run_stdout cs w) \<le> progressCount (run_stdout (cs @ ds) w)"
    by (simp add: run_stdout_append progressCount_run)
  have c: "\<not> terminal_chunk c \<longrightarrow>
        progressCount (onReadyReadStandardOutput c w)
          = progressCount w + int (length (filter (\<lambda>x. x = CHR ''#'') c))
        \<and> status (onReadyReadStandardOutput c w)
          = status w @ replicate (nat (progressCount (onReadyReadStandardOutput c w) div 3)) CHR ''.''"
    by (simp add: terminal_chunk_def onReadyReadStandardOutput_def Let_def add_dots_eq
        nat_int_div3 py_count_eq)
  have d: "terminal_chunk c \<longrightarrow>
        progressCount (onReadyReadStandardOutput c w) = progressCount w
        \<and> status (onReadyReadStandardOutput c w)
          \<in> {''Complete'', ''Upload Failed'', ''Port In Use / Please Close''}"
    by (simp add: terminal_chunk_def onReadyReadStandardOutput_def)
  from a b c d show ?thesis by blast
qed

theorem progress_monotone_witness:
  "\<not> terminal_chunk ''###''
   \<and> progressCount (onReadyReadStandardOutput ''###'' sample_widget) = 4
   \<and> status (onReadyReadStandardOutput ''###'' sample_widget) = '' .''
   \<and> terminal_chunk ''Upload complete''
   \<and> progressCount (onReadyReadStandardOutput ''Upload complete'' sample_widget) = 1"
proof -
  have t: "\<not> terminal_chunk ''###''" "terminal_chunk ''Upload complete''"
    by (simp_all add: terminal_chunk_def)
  have s: "progressCount sample_widget = 1" "status sample_widget = '' ''"
    by (simp_all add: sample_widget_def)
  show ?thesis
    using progress_monotone [of sample_widget "''###''" "[]" "[]"]
      progress_monotone [of sample_widget "''Upload complete''" "[]" "[]"]
    by (simp add: t s)
qed

text \<open>
  C2 as the specification states it fails: after Upload is pressed and the chunks
  \<^verbatim>\<open>###\<close> and \<^verbatim>\<open>complete\<close> are read, the status has gone from
  \<^verbatim>\<open>Uploading .\<close> to \<^verbatim>\<open>Complete\<close>, so the dot is gone, and the progress counter ends
  at 3, not at 100.
\<close>

theorem progress_claim_counterexample:
  "status busy_widget = ''Uploading .''
   \<and> status (run_stdout [''complete''] busy_widget) = ''Complete''
   \<and> take (length (status busy_widget)) (status (run_stdout [''complete''] busy_widget))
       \<noteq> status busy_widget
   \<and> progressCount (run_stdout [''complete''] busy_widget) = 3
   \<and> progressCount (run_stdout [''complete''] busy_widget) \<noteq> 100"
  by (simp add: busy_widget_eq onReadyReadStandardOutput_def)

text \<open>
  C5, as the code has it. \<^verbatim>\<open>on_upload_btn_pressed\<close> has no busy check: whatever
  \<^verbatim>\<open>self.process\<close> holds (nothing, or an uploader started earlier), when the selected
  port is enumerated and the file opens the handler starts a new uploader with status
  \<^verbatim>\<open>Uploading \<close> and the counter at 0. A port in use is reported afterwards, when the
  uploader prints \<^verbatim>\<open>open\<close>: the status becomes \<^verbatim>\<open>Port In Use / Please Close\<close>.
\<close>

theorem upload_has_no_busy_check:
  assumes "port w \<in> (\<lambda>p. Some (VStr (device p))) ` set ports"
    and "can_open (fileLocation_lineedit w)"
  shows "on_upload_btn_pressed ports can_open (w\<lparr>process := running\<rparr>) =
      w\<lparr>progressCount := 0, status := ''Uploading '',
        process := Some (command_line w),
        effects := effects w @
          [OpenFile (fileLocation_lineedit w), CloseFile (fileLocation_lineedit w),
           StartProcess (command_line w)]\<rparr>
    \<and> (\<not> py_in ''complete'' c \<and> \<not> py_in ''failed'' c \<and> py_in ''open'' c \<longrightarrow>
         status (onReadyReadStandardOutput c w') = ''Port In Use / Please Close'')"
  using assms
  by (simp add: on_upload_btn_pressed_def port_available_iff port_def command_line_def
      baudRate_def onReadyReadStandardOutput_def)

theorem upload_has_no_busy_check_witness:
  "process busy_widget = Some (command_line sample_widget)
   \<and> port busy_widget \<in> (\<lambda>p. Some (VStr (device p))) ` set [com3]
   \<and> every_file_opens (fileLocation_lineedit busy_widget)
   \<and> status (on_upload_btn_pressed [com3] every_file_opens busy_widget) = ''Uploading ''
   \<and> process (on_upload_btn_pressed [com3] every_file_opens busy_widget)
       = Some (command_line sample_widget)
   \<and> status (onReadyReadStandardOutput ''could not open port'' busy_widget)
       = ''Port In Use / Please Close''"
proof -
  have a: "port busy_widget \<in> (\<lambda>p. Some (VStr (device p))) ` set [com3]"
    by (simp add: busy_widget_selection com3_def)
  have b: "every_file_opens (fileLocation_lineedit busy_widget)"
    by (simp add: every_file_opens_def)
  have p: "process busy_widget = Some (command_line sample_widget)"
    by (simp add: busy_widget_eq)
  have r: "busy_widget\<lparr>process := Some (command_line sample_widget)\<rparr> = busy_widget"
    by (simp add: busy_widget_eq)
  note h = upload_has_no_busy_check [where w = busy_widget and ports = "[com3]"
      and can_open = every_file_opens and running = "Some (command_line sample_widget)"
      and c = "''could not open port''" and w' = busy_widget, OF a b, unfolded r]
  have o: "\<not> py_in ''complete'' ''could not open port''
      \<and> \<not> py_in ''failed'' ''could not open port'' \<and> py_in ''open'' ''could not open port''"
    by simp
  from h o have
    "status (on_upload_btn_pressed [com3] every_file_opens busy_widget) = ''Uploading ''"
    "process (on_upload_btn_pressed [com3] every_file_opens busy_widget)
       = Some (command_line sample_widget)"
    "status (onReadyReadStandardOutput ''could not open port'' busy_widget)
       = ''Port In Use / Please Close''"
    by (simp_all add: busy_widget_selection)
  with a b p show ?thesis
    by blast
qed

text \<open>
  C5 as the specification states it fails: with an uploader already started on COM3
  and still reporting progress, pressing Upload again does not fail; a second uploader is
  started on the same port with the same command line.
\<close>

theorem session_busy_counterexample:
  "process busy_widget
     = Some (''artemis_svl.exe COM3 -f'' @ [CHR 0x22] @ ''fw.bin'' @ [CHR 0x22] @ '' -b921600'')
   \<and> status busy_widget = ''Uploading .''
   \<and> status (on_upload_btn_pressed [com3] every_file_opens busy_widget) = ''Uploading ''
   \<and> effects (on_upload_btn_pressed [com3] every_file_opens busy_widget)
     = [OpenFile ''fw.bin'', CloseFile ''fw.bin'',
        StartProcess (''artemis_svl.exe COM3 -f'' @ [CHR 0x22] @ ''fw.bin'' @ [CHR 0x22]
          @ '' -b921600''),
        OpenFile ''fw.bin'', CloseFile ''fw.bin'',
        StartProcess (''artemis_svl.exe COM3 -f'' @ [CHR 0x22] @ ''fw.bin'' @ [CHR 0x22]
          @ '' -b921600'')]"
proof -
  have "port_available [com3] (port busy_widget) False"
    by (simp add: busy_widget_selection com3_def)
  then have "on_upload_btn_pressed [com3] every_file_opens busy_widget =
      busy_widget\<lparr>progressCount := 0, status := ''Uploading '',
        process := Some (command_line sample_widget),
        effects := effects busy_widget @
          [OpenFile ''fw.bin'', CloseFile ''fw.bin'',
           StartProcess (command_line sample_widget)]\<rparr>"
    by (simp only: on_upload_btn_pressed_def busy_widget_selection every_file_opens_def
        not_True_eq_False if_False)
  then show ?thesis
    by (simp add: busy_widget_eq command_line_sample)
qed

section \<open>Facts and claims about the protocol engine\<close>

subsection \<open>Image Segmenter\<close>

lemma div_round_up_step:
  fixes d P :: nat
  assumes "0 < P" "0 < d"
  shows "(d + (P - 1)) div P = Suc ((d - P + (P - 1)) div P)"
proof (cases "d < P")
  case True
  with assms have "(d + (P - 1)) div P = 1"
    by (intro div_nat_eqI) simp_all
  moreover from True assms have "(d - P + (P - 1)) div P = 0"
    by simp
  ultimately show ?thesis by simp
next
  case False
  define m where "m = d - P + (P - 1)"
  from False have "d + (P - 1) = m + P"
    by (simp add: m_def)
  moreover have "(m + P) div P = Suc (m div P)"
    using assms(1) by simp
  ultimately show ?thesis
    by (simp add: m_def)
qed

lemma div_round_up_ceiling:
  fixes L P :: nat
  assumes "0 < P"
  shows "(L + (P - 1)) div P = nat \<lceil>real L / real P\<rceil>"
proof -
  define n where "n = (L + (P - 1)) div P"
  have rp: "0 < real P"
    using assms by simp
  have "n * P \<le> L + (P - 1)"
    by (simp add: n_def)
  then have "real (n * P) \<le> real (L + (P - 1))"
    by (rule of_nat_mono)
  with assms have "real n * real P \<le> real L + real P - 1"
    by (simp add: of_nat_diff)
  then have "(real n - 1) * real P < real L"
    by (simp add: algebra_simps)
  with rp have lo: "real n - 1 < real L / real P"
    by (simp add: pos_less_divide_eq)
  have "L + (P - 1) < P + P * n"
    unfolding n_def using assms by (rule dividend_less_times_div)
  with assms have "L \<le> n * P"
    by (simp add: mult.commute)
  then have "real L \<le> real (n * P)"
    by (rule of_nat_mono)
  with rp have up: "real L / real P \<le> real n"
    by (simp add: pos_divide_le_eq)
  have "\<lceil>real L / real P\<rceil> = int n"
    using lo up by (intro ceiling_unique) simp_all
  then show ?thesis
    by (simp add: n_def)
qed

lemma segment_from_step:
  "0 < P \<Longrightarrow> i * P < length img \<Longrightarrow>
     segment_from ck img P i = make_page ck img P i # segment_from ck img P (Suc i)"
  by (subst segment_from.simps) simp

lemma segment_from_done:
  "\<not> (0 < P \<and> i * P < length img) \<Longrightarrow> segment_from ck img P i = []"
  by (subst segment_from.simps) simp

lemma length_segment_from:
  "0 < P \<Longrightarrow> length (segment_from ck img P i) = (length img - i * P + (P - 1)) div P"
proof (induction ck img P i rule: segment_from.induct)
  case (1 ck img P i)
  show ?case
  proof (cases "i * P < length img")
    case True
    define d where "d = length img - i * P"
    from True have d: "0 < d" "length img - Suc i * P = d - P"
      by (simp_all add: d_def)
    from 1 True have "length (segment_from ck img P (Suc i))
        = (length img - Suc i * P + (P - 1)) div P"
      by simp
    then have ih: "length (segment_from ck img P (Suc i)) = (d - P + (P - 1)) div P"
      by (simp only: d(2))
    have "length (segment_from ck img P i) = Suc (length (segment_from ck img P (Suc i)))"
      using 1(2) True by (simp add: segment_from_step)
    also have "\<dots> = Suc ((d - P + (P - 1)) div P)"
      by (simp only: ih)
    also have "\<dots> = (d + (P - 1)) div P"
      using 1(2) d(1) by (rule div_round_up_step [symmetric])
    finally show ?thesis
      by (simp only: d_def)
  next
    case False
    with 1(2) show ?thesis
      by (simp add: segment_from_done)
  qed
qed

lemma payload_make_page:
  "payload (make_page ck img P i)
     = take P (drop (i * P) img) @ replicate (P - length (take P (drop (i * P) img))) 0"
  by (simp add: make_page_def Let_def)

lemma concat_segment_from:
  "0 < P \<Longrightarrow> concat (map payload (segment_from ck img P i))
     = drop (i * P) img
       @ replicate (length (segment_from ck img P i) * P - (length img - i * P)) 0"
proof (induction ck img P i rule: segment_from.induct)
  case (1 ck img P i)
  show ?case
  proof (cases "i * P < length img")
    case True
    note step = segment_from_step [OF 1(2) True]
    from 1 True have ih: "concat (map payload (segment_from ck img P (Suc i)))
        = drop (Suc i * P) img
          @ replicate (length (segment_from ck img P (Suc i)) * P - (length img - Suc i * P)) 0"
      by simp
    show ?thesis
    proof (cases "Suc i * P \<le> length img")
      case full: True
      then have "length (take P (drop (i * P) img)) = P"
        by simp
      then have p: "payload (make_page ck img P i) = take P (drop (i * P) img)"
        by (simp add: payload_make_page)
      have "take P (drop (i * P) img) @ drop (Suc i * P) img = drop (i * P) img"
        by (metis add.commute append_take_drop_id drop_drop mult_Suc)
      moreover from full have "Suc (length (segment_from ck img P (Suc i))) * P - (length img - i * P)
          = length (segment_from ck img P (Suc i)) * P - (length img - Suc i * P)"
        by simp
      ultimately show ?thesis
        using ih p by (simp add: step del: mult_Suc)
    next
      case last: False
      then have "segment_from ck img P (Suc i) = []"
        by (simp add: segment_from_done)
      moreover from last have "take P (drop (i * P) img) = drop (i * P) img"
        by simp
      ultimately show ?thesis
        by (simp add: step payload_make_page)
    qed
  next
    case False
    with 1(2) show ?thesis
      by (simp add: segment_from_done)
  qed
qed

lemma nth_segment_from:
  "k < length (segment_from ck img P i) \<Longrightarrow>
     segment_from ck img P i ! k = make_page ck img P (i + k)"
proof (induction ck img P i arbitrary: k rule: segment_from.induct)
  case (1 ck img P i)
  show ?case
  proof (cases "0 < P \<and> i * P < length img")
    case True
    then have step: "segment_from ck img P i
        = make_page ck img P i # segment_from ck img P (Suc i)"
      by (simp add: segment_from_step)
    show ?thesis
    proof (cases k)
      case 0
      then show ?thesis by (simp add: step)
    next
      case (Suc k')
      with 1(2) step have "k' < length (segment_from ck img P (Suc i))"
        by simp
      with 1(1) True have "segment_from ck img P (Suc i) ! k' = make_page ck img P (Suc i + k')"
        by simp
      with Suc show ?thesis by (simp add: step)
    qed
  next
    case False
    with 1(2) show ?thesis
      by (simp add: segment_from_done)
  qed
qed

lemma index_make_page: "index (make_page ck img P i) = i"
  by (simp add: make_page_def Let_def)


text \<open>
  C4. For an image of length \<open>L\<close> and a page size \<open>P > 0\<close> the segmenter yields exactly
  \<open>\<lceil>L / P\<rceil>\<close> pages, indexed \<open>0, 1, \<dots>\<close> in order; the payloads concatenated in that
  order are the image followed by \<open>\<lceil>L / P\<rceil> * P - L\<close> zero bytes; and every page of the
  sequence is the page computed from the image, the page size and its index alone, so
  that running the segmentation again gives the same pages.
\<close>

theorem segment_pages:
  assumes "0 < P"
  shows "length (segment ck img P) = nat \<lceil>real (length img) / real P\<rceil>
    \<and> concat (map payload (segment ck img P))
        = img @ replicate (nat \<lceil>real (length img) / real P\<rceil> * P - length img) 0
    \<and> map index (segment ck img P) = [0..<nat \<lceil>real (length img) / real P\<rceil>]
    \<and> (\<forall>k<nat \<lceil>real (length img) / real P\<rceil>. segment ck img P ! k = make_page ck img P k)"
proof -
  have "length img - 0 * P = length img"
    by simp
  with length_segment_from [OF assms, of ck img 0]
  have "length (segment ck img P) = (length img + (P - 1)) div P"
    by (simp only: segment_def)
  then have len: "length (segment ck img P) = nat \<lceil>real (length img) / real P\<rceil>"
    by (simp only: div_round_up_ceiling [OF assms])
  have cat: "concat (map payload (segment ck img P))
        = img @ replicate (length (segment ck img P) * P - length img) 0"
    using concat_segment_from [OF assms, of ck img 0] by (simp add: segment_def)
  have nth: "\<forall>k<length (segment ck img P). segment ck img P ! k = make_page ck img P k"
    using nth_segment_from [of _ ck img P 0] by (simp add: segment_def)
  have "map index (segment ck img P) = [0..<length (segment ck img P)]"
    by (rule nth_equalityI) (simp_all add: nth index_make_page)
  with len cat nth show ?thesis
    by simp
qed

theorem segment_pages_witness:
  "(0::nat) < 512
   \<and> length (segment additive_checksum sample_image 512) = 3
   \<and> concat (map payload (segment additive_checksum sample_image 512))
       = sample_image @ replicate 502 0
   \<and> map index (segment additive_checksum sample_image 512) = [0, 1, 2]
   \<and> map payload (segment additive_checksum [1, 2, 3, 4, 5] 2) = [[1, 2], [3, 4], [5, 0]]"
proof -
  have l: "length sample_image = 1034"
    by (simp add: sample_image_def)
  have c: "nat \<lceil>real (1034::nat) / real (512::nat)\<rceil> = 3"
    by simp
  have u: "[0..<3] = [0, 1, 2]"
    by (simp add: upt_rec)
  have small: "map payload (segment additive_checksum [1, 2, 3, 4, 5] 2) = [[1, 2], [3, 4], [5, 0]]"
    by (simp add: segment_def segment_from.simps payload_make_page)
  have p: "(0::nat) < 512"
    by simp
  from segment_pages [OF p, of additive_checksum sample_image] small show ?thesis
    by (simp only: l c u) simp
qed

subsection \<open>The page loop\<close>

lemma exchange_at_tl: "exchange_at (tl xs) k = exchange_at xs (Suc k)"
  by (cases xs) (simp_all add: exchange_at_def)

lemma judge_Advance: "judge i x = Advance \<longleftrightarrow> x = (Ack i, False)"
  by (induction i x rule: judge.induct) auto

lemma judge_Retry: "judge i x = Retry \<Longrightarrow> fst x \<noteq> Ack i"
  by (induction i x rule: judge.induct) (auto split: if_splits)

lemma transfer_pages_done:
  "n \<le> i \<Longrightarrow> transfer_pages n limit xs i a = (Verifying, [])"
  by (subst transfer_pages.simps) simp

lemma transfer_pages_exhausted:
  "i < n \<Longrightarrow> limit \<le> a \<Longrightarrow> transfer_pages n limit xs i a = (Failed (PageTransferFailed i), [])"
  by (subst transfer_pages.simps) simp

lemma transfer_pages_abort:
  "i < n \<Longrightarrow> a < limit \<Longrightarrow> judge i (exchange_at xs 0) = Abort cause \<Longrightarrow>
     transfer_pages n limit xs i a = (Failed cause, [i])"
  by (subst transfer_pages.simps) simp

lemma transfer_pages_advance:
  "i < n \<Longrightarrow> a < limit \<Longrightarrow> judge i (exchange_at xs 0) = Advance \<Longrightarrow>
     transfer_pages n limit xs i a =
       (fst (transfer_pages n limit (tl xs) (Suc i) 0),
        i # snd (transfer_pages n limit (tl xs) (Suc i) 0))"
  by (subst transfer_pages.simps) (simp add: Let_def)

lemma transfer_pages_retry:
  "i < n \<Longrightarrow> a < limit \<Longrightarrow> judge i (exchange_at xs 0) = Retry \<Longrightarrow>
     transfer_pages n limit xs i a =
       (fst (transfer_pages n limit (tl xs) i (Suc a)),
        i # snd (transfer_pages n limit (tl xs) i (Suc a)))"
  by (subst transfer_pages.simps) (simp add: Let_def)

lemma transfer_pages_cases [case_names finished exhausted abort advance retry]:
  fixes n i limit a :: nat
  assumes "n \<le> i \<Longrightarrow> P"
    and "i < n \<Longrightarrow> limit \<le> a \<Longrightarrow> P"
    and "\<And>cause. i < n \<Longrightarrow> a < limit \<Longrightarrow> judge i (exchange_at xs 0) = Abort cause \<Longrightarrow> P"
    and "i < n \<Longrightarrow> a < limit \<Longrightarrow> judge i (exchange_at xs 0) = Advance \<Longrightarrow> P"
    and "i < n \<Longrightarrow> a < limit \<Longrightarrow> judge i (exchange_at xs 0) = Retry \<Longrightarrow> P"
  shows P
proof (cases "n \<le> i")
  case True
  then show ?thesis by (rule assms(1))
next
  case False
  then have i: "i < n" by (rule not_le_imp_less)
  show ?thesis
  proof (cases "limit \<le> a")
    case True
    with i show ?thesis by (rule assms(2))
  next
    case False
    then have a: "a < limit" by (rule not_le_imp_less)
    show ?thesis
    proof (cases "judge i (exchange_at xs 0)")
      case Advance
      with i a show ?thesis by (rule assms(4))
    next
      case Retry
      with i a show ?thesis by (rule assms(5))
    next
      case (Abort cause)
      with i a show ?thesis by (rule assms(3))
    qed
  qed
qed

lemma transfer_pages_bounds:
  "j \<in> set (snd (transfer_pages n limit xs i a)) \<Longrightarrow> i \<le> j \<and> j < n"
proof (induction n limit xs i a rule: transfer_pages.induct)
  case (1 n limit xs i a)
  show ?case
  proof (cases rule: transfer_pages_cases [where n = n and i = i and limit = limit and a = a and xs = xs])
    case finished
    with 1(3) show ?thesis by (simp add: transfer_pages_done)
  next
    case exhausted
    with 1(3) show ?thesis by (simp add: transfer_pages_exhausted)
  next
    case (abort cause)
    with 1(3) show ?thesis by (simp add: transfer_pages_abort)
  next
    case advance
    with 1(1,3) show ?thesis
      by (auto simp: transfer_pages_advance)
  next
    case retry
    with 1(2,3) show ?thesis
      by (auto simp: transfer_pages_retry)
  qed
qed

lemma transfer_pages_hd:
  "snd (transfer_pages n limit xs i a) \<noteq> [] \<Longrightarrow> hd (snd (transfer_pages n limit xs i a)) = i"
  by (cases rule: transfer_pages_cases [where n = n and i = i and limit = limit and a = a and xs = xs])
    (simp_all add: transfer_pages_done transfer_pages_exhausted transfer_pages_abort
      transfer_pages_advance transfer_pages_retry)

lemma transfer_pages_steps:
  "Suc k < length (snd (transfer_pages n limit xs i a)) \<Longrightarrow>
     (if fst (exchange_at xs k) = Ack (snd (transfer_pages n limit xs i a) ! k)
      then snd (transfer_pages n limit xs i a) ! Suc k
             = Suc (snd (transfer_pages n limit xs i a) ! k)
      else snd (transfer_pages n limit xs i a) ! Suc k
             = snd (transfer_pages n limit xs i a) ! k)"
proof (induction n limit xs i a arbitrary: k rule: transfer_pages.induct)
  case (1 n limit xs i a)
  show ?case
  proof (cases rule: transfer_pages_cases [where n = n and i = i and limit = limit and a = a and xs = xs])
    case finished
    with 1(3) show ?thesis by (simp add: transfer_pages_done)
  next
    case exhausted
    with 1(3) show ?thesis by (simp add: transfer_pages_exhausted)
  next
    case (abort cause)
    with 1(3) show ?thesis by (simp add: transfer_pages_abort)
  next
    case advance
    let ?rest = "snd (transfer_pages n limit (tl xs) (Suc i) 0)"
    from advance have eq: "snd (transfer_pages n limit xs i a) = i # ?rest"
      by (simp add: transfer_pages_advance)
    from advance(3) have ack: "exchange_at xs 0 = (Ack i, False)"
      by (simp add: judge_Advance)
    show ?thesis
    proof (cases k)
      case 0
      with 1(3) eq have "?rest \<noteq> []" by auto
      then have "hd ?rest = Suc i" by (rule transfer_pages_hd)
      with \<open>?rest \<noteq> []\<close> have "?rest ! 0 = Suc i" by (simp add: hd_conv_nth)
      with 0 ack show ?thesis by (simp add: eq)
    next
      case (Suc k')
      with 1(3) eq have "Suc k' < length ?rest" by simp
      with 1(1) advance have "if fst (exchange_at (tl xs) k') = Ack (?rest ! k')
          then ?rest ! Suc k' = Suc (?rest ! k') else ?rest ! Suc k' = ?rest ! k'"
        by (simp add: not_le)
      with Suc show ?thesis by (simp add: eq exchange_at_tl)
    qed
  next
    case retry
    let ?rest = "snd (transfer_pages n limit (tl xs) i (Suc a))"
    from retry have eq: "snd (transfer_pages n limit xs i a) = i # ?rest"
      by (simp add: transfer_pages_retry)
    from retry(3) have nack: "fst (exchange_at xs 0) \<noteq> Ack i"
      by (rule judge_Retry)
    show ?thesis
    proof (cases k)
      case 0
      with 1(3) eq have "?rest \<noteq> []" by auto
      then have "hd ?rest = i" by (rule transfer_pages_hd)
      with \<open>?rest \<noteq> []\<close> have "?rest ! 0 = i" by (simp add: hd_conv_nth)
      with 0 nack show ?thesis by (simp add: eq)
    next
      case (Suc k')
      with 1(3) eq have "Suc k' < length ?rest" by simp
      with 1(2) retry have "if fst (exchange_at (tl xs) k') = Ack (?rest ! k')
          then ?rest ! Suc k' = Suc (?rest ! k') else ?rest ! Suc k' = ?rest ! k'"
        by (simp add: not_le)
      with Suc show ?thesis by (simp add: eq exchange_at_tl)
    qed
  qed
qed

lemma judge_Abort: "judge i x = Abort cause \<Longrightarrow> cause \<noteq> PageTransferFailed j"
proof (induction i x rule: judge.induct)
  case (1 i f cancel)
  then show ?case by (cases f) auto
qed (auto split: if_splits)

lemma transfer_pages_absent:
  "j < i \<Longrightarrow> count_list (snd (transfer_pages n limit xs i a)) j = 0"
  using transfer_pages_bounds [of j n limit xs i a]
  by (auto simp: count_list_0_iff)

lemma transfer_pages_count:
  "a \<le> limit \<Longrightarrow>
     count_list (snd (transfer_pages n limit xs i a)) j + (if j = i then a else 0) \<le> limit"
proof (induction n limit xs i a rule: transfer_pages.induct)
  case (1 n limit xs i a)
  show ?case
  proof (cases rule: transfer_pages_cases [where n = n and i = i and limit = limit and a = a and xs = xs])
    case finished
    with 1(3) show ?thesis by (simp add: transfer_pages_done)
  next
    case exhausted
    with 1(3) show ?thesis by (simp add: transfer_pages_exhausted)
  next
    case (abort cause)
    then show ?thesis by (simp add: transfer_pages_abort)
  next
    case advance
    let ?rest = "snd (transfer_pages n limit (tl xs) (Suc i) 0)"
    from advance have eq: "snd (transfer_pages n limit xs i a) = i # ?rest"
      by (simp add: transfer_pages_advance)
    from 1(1) advance have ih: "count_list ?rest j \<le> limit"
      by (simp add: not_le split: if_splits)
    have "count_list ?rest i = 0"
      by (rule transfer_pages_absent) simp
    with ih advance(2) show ?thesis
      by (simp add: eq)
  next
    case retry
    let ?rest = "snd (transfer_pages n limit (tl xs) i (Suc a))"
    from retry have eq: "snd (transfer_pages n limit xs i a) = i # ?rest"
      by (simp add: transfer_pages_retry)
    from 1(2) retry have "count_list ?rest j + (if j = i then Suc a else 0) \<le> limit"
      by (simp add: not_le)
    then show ?thesis
      by (simp add: eq split: if_splits)
  qed
qed

lemma transfer_pages_failed:
  "fst (transfer_pages n limit xs i a) = Failed (PageTransferFailed j) \<Longrightarrow> a \<le> limit \<Longrightarrow>
     j < n \<and> count_list (snd (transfer_pages n limit xs i a)) j + (if j = i then a else 0) = limit"
proof (induction n limit xs i a rule: transfer_pages.induct)
  case (1 n limit xs i a)
  show ?case
  proof (cases rule: transfer_pages_cases [where n = n and i = i and limit = limit and a = a and xs = xs])
    case finished
    with 1(3) show ?thesis by (simp add: transfer_pages_done)
  next
    case exhausted
    with 1(3,4) show ?thesis by (simp add: transfer_pages_exhausted)
  next
    case (abort cause)
    with 1(3) have "cause = PageTransferFailed j"
      by (simp add: transfer_pages_abort)
    with abort(3) show ?thesis
      using judge_Abort by blast
  next
    case advance
    let ?rest = "snd (transfer_pages n limit (tl xs) (Suc i) 0)"
    from advance have eq: "transfer_pages n limit xs i a
        = (fst (transfer_pages n limit (tl xs) (Suc i) 0), i # ?rest)"
      by (simp add: transfer_pages_advance)
    with 1(3) have "fst (transfer_pages n limit (tl xs) (Suc i) 0) = Failed (PageTransferFailed j)"
      by simp
    with 1(1) advance have ih: "j < n" "count_list ?rest j + 0 = limit"
      by (simp_all add: not_le split: if_splits)
    have "count_list ?rest i = 0"
      by (rule transfer_pages_absent) simp
    with ih(2) advance(2) have "j \<noteq> i"
      by auto
    with ih show ?thesis
      by (simp add: eq)
  next
    case retry
    let ?rest = "snd (transfer_pages n limit (tl xs) i (Suc a))"
    from retry have eq: "transfer_pages n limit xs i a
        = (fst (transfer_pages n limit (tl xs) i (Suc a)), i # ?rest)"
      by (simp add: transfer_pages_retry)
    with 1(3) have "fst (transfer_pages n limit (tl xs) i (Suc a)) = Failed (PageTransferFailed j)"
      by simp
    with 1(2) retry have "j < n \<and> count_list ?rest j + (if j = i then Suc a else 0) = limit"
      by (simp add: not_le)
    then show ?thesis
      by (simp add: eq split: if_splits)
  qed
qed

lemma transfer_pages_verifying:
  "fst (transfer_pages n limit xs i a) = Verifying \<Longrightarrow>
     set (snd (transfer_pages n limit xs i a)) = {i..<n}"
proof (induction n limit xs i a rule: transfer_pages.induct)
  case (1 n limit xs i a)
  show ?case
  proof (cases rule: transfer_pages_cases [where n = n and i = i and limit = limit and a = a and xs = xs])
    case finished
    then show ?thesis by (simp add: transfer_pages_done)
  next
    case exhausted
    with 1(3) show ?thesis by (simp add: transfer_pages_exhausted)
  next
    case (abort cause)
    with 1(3) show ?thesis by (simp add: transfer_pages_abort)
  next
    case advance
    with 1(3) have "fst (transfer_pages n limit (tl xs) (Suc i) 0) = Verifying"
      by (simp add: transfer_pages_advance)
    with 1(1) advance have "set (snd (transfer_pages n limit (tl xs) (Suc i) 0)) = {Suc i..<n}"
      by (simp add: not_le)
    moreover from advance(1) have "insert i {Suc i..<n} = {i..<n}"
      by auto
    moreover from advance have "snd (transfer_pages n limit xs i a)
        = i # snd (transfer_pages n limit (tl xs) (Suc i) 0)"
      by (simp add: transfer_pages_advance)
    ultimately show ?thesis
      by simp
  next
    case retry
    with 1(3) have "fst (transfer_pages n limit (tl xs) i (Suc a)) = Verifying"
      by (simp add: transfer_pages_retry)
    with 1(2) retry have "set (snd (transfer_pages n limit (tl xs) i (Suc a))) = {i..<n}"
      by (simp add: not_le)
    moreover from retry(1) have "insert i {i..<n} = {i..<n}"
      by auto
    moreover from retry have "snd (transfer_pages n limit xs i a)
        = i # snd (transfer_pages n limit (tl xs) i (Suc a))"
      by (simp add: transfer_pages_retry)
    ultimately show ?thesis
      by simp
  qed
qed

lemma transfer_pages_limit_reached:
  "k < length (snd (transfer_pages n limit xs i a)) \<Longrightarrow>
   judge (snd (transfer_pages n limit xs i a) ! k) (exchange_at xs k) = Retry \<Longrightarrow>
   count_list (take (Suc k) (snd (transfer_pages n limit xs i a)))
       (snd (transfer_pages n limit xs i a) ! k)
     + (if snd (transfer_pages n limit xs i a) ! k = i then a else 0) = limit \<Longrightarrow>
   fst (transfer_pages n limit xs i a)
       = Failed (PageTransferFailed (snd (transfer_pages n limit xs i a) ! k))
     \<and> length (snd (transfer_pages n limit xs i a)) = Suc k"
proof (induction n limit xs i a arbitrary: k rule: transfer_pages.induct)
  case (1 n limit xs i a)
  show ?case
  proof (cases rule: transfer_pages_cases [where n = n and i = i and limit = limit and a = a and xs = xs])
    case finished
    with 1(3) show ?thesis by (simp add: transfer_pages_done)
  next
    case exhausted
    with 1(3) show ?thesis by (simp add: transfer_pages_exhausted)
  next
    case (abort cause)
    with 1(3,4) show ?thesis by (simp add: transfer_pages_abort)
  next
    case advance
    let ?rest = "snd (transfer_pages n limit (tl xs) (Suc i) 0)"
    from advance have eq: "transfer_pages n limit xs i a
        = (fst (transfer_pages n limit (tl xs) (Suc i) 0), i # ?rest)"
      by (simp add: transfer_pages_advance)
    show ?thesis
    proof (cases k)
      case 0
      with 1(4) advance(3) show ?thesis by (simp add: eq)
    next
      case (Suc k')
      with 1(3) have k': "k' < length ?rest"
        by (simp add: eq)
      then have "?rest ! k' \<in> set ?rest"
        by (rule nth_mem)
      then have "Suc i \<le> ?rest ! k'"
        using transfer_pages_bounds by blast
      then have ne: "?rest ! k' \<noteq> i" "i \<noteq> ?rest ! k'"
        by simp_all
      from 1(4) Suc have r: "judge (?rest ! k') (exchange_at (tl xs) k') = Retry"
        by (simp add: eq exchange_at_tl)
      from 1(5) Suc ne have c: "count_list (take (Suc k') ?rest) (?rest ! k')
          + (if ?rest ! k' = Suc i then 0 else 0) = limit"
        by (simp add: eq)
      from advance have "\<not> n \<le> i" "\<not> limit \<le> a"
        by simp_all
      from 1(1) [OF this advance(3) k' r c] Suc show ?thesis
        by (simp add: eq)
    qed
  next
    case retry
    let ?rest = "snd (transfer_pages n limit (tl xs) i (Suc a))"
    from retry have eq: "transfer_pages n limit xs i a
        = (fst (transfer_pages n limit (tl xs) i (Suc a)), i # ?rest)"
      by (simp add: transfer_pages_retry)
    show ?thesis
    proof (cases k)
      case 0
      with 1(5) have "limit \<le> Suc a"
        by (simp add: eq)
      with retry(1) have "transfer_pages n limit (tl xs) i (Suc a)
          = (Failed (PageTransferFailed i), [])"
        by (rule transfer_pages_exhausted)
      with 0 show ?thesis by (simp add: eq)
    next
      case (Suc k')
      with 1(3) have k': "k' < length ?rest"
        by (simp add: eq)
      from 1(4) Suc have r: "judge (?rest ! k') (exchange_at (tl xs) k') = Retry"
        by (simp add: eq exchange_at_tl)
      from 1(5) Suc have c: "count_list (take (Suc k') ?rest) (?rest ! k')
          + (if ?rest ! k' = i then Suc a else 0) = limit"
        by (simp add: eq split: if_splits)
      from retry have "\<not> n \<le> i" "\<not> limit \<le> a"
        by simp_all
      from 1(2) [OF this retry(3) k' r c] Suc show ?thesis
        by (simp add: eq)
    qed
  qed
qed


lemma transfer_pages_failing_link:
  "transfer_pages 3 3 failing_link 0 0 = (Failed (PageTransferFailed 1), [0, 1, 1, 1])"
  by (simp add: transfer_pages.simps failing_link_def exchange_at_def)

lemma transfer_pages_noisy_link:
  "transfer_pages 3 3 noisy_link 0 0 = (Verifying, [0, 1, 1, 1, 2])"
  by (simp add: transfer_pages.simps noisy_link_def exchange_at_def)

text \<open>
  C6. In every session the page indices sent start at 0; after an acknowledgement of
  the index just sent the next index sent is the next higher one, and after any other
  reply it is the same index again, so the sequence has no gap and repeats an index only
  as a retry; no index is sent more than \<open>limit\<close> times; when the \<open>limit\<close>-th send of an
  index again calls for a retry the session ends there, \<^verbatim>\<open>Failed\<close> with
  \<^verbatim>\<open>PageTransferFailed\<close> of that index; a session that fails so has sent that index
  \<open>limit\<close> times, and one that goes on to \<^verbatim>\<open>Verifying\<close> has sent every page.
\<close>

theorem page_index_sequence:
  assumes "transfer_pages n limit xs 0 0 = (st, sent)"
  shows "(sent \<noteq> [] \<longrightarrow> hd sent = 0)
    \<and> (\<forall>k. Suc k < length sent \<longrightarrow>
          (if fst (exchange_at xs k) = Ack (sent ! k)
           then sent ! Suc k = Suc (sent ! k) else sent ! Suc k = sent ! k))
    \<and> (\<forall>j. count_list sent j \<le> limit)
    \<and> (\<forall>k<length sent.
          judge (sent ! k) (exchange_at xs k) = Retry
          \<and> count_list (take (Suc k) sent) (sent ! k) = limit \<longrightarrow>
          st = Failed (PageTransferFailed (sent ! k)) \<and> length sent = Suc k)
    \<and> (\<forall>j. st = Failed (PageTransferFailed j) \<longrightarrow> j < n \<and> count_list sent j = limit)
    \<and> (st = Verifying \<longrightarrow> set sent = {0..<n})"
proof -
  from assms have st: "st = fst (transfer_pages n limit xs 0 0)"
    and sent: "sent = snd (transfer_pages n limit xs 0 0)"
    by simp_all
  have a: "sent \<noteq> [] \<longrightarrow> hd sent = 0"
    unfolding sent by (simp add: transfer_pages_hd)
  have b: "\<forall>k. Suc k < length sent \<longrightarrow>
          (if fst (exchange_at xs k) = Ack (sent ! k)
           then sent ! Suc k = Suc (sent ! k) else sent ! Suc k = sent ! k)"
    unfolding sent using transfer_pages_steps by blast
  have c: "\<forall>j. count_list sent j \<le> limit"
  proof
    fix j
    have "count_list sent j + (if j = 0 then 0 else 0) \<le> limit"
      unfolding sent by (rule transfer_pages_count) simp
    then show "count_list sent j \<le> limit" by simp
  qed
  have d: "\<forall>k<length sent.
          judge (sent ! k) (exchange_at xs k) = Retry
          \<and> count_list (take (Suc k) sent) (sent ! k) = limit \<longrightarrow>
          st = Failed (PageTransferFailed (sent ! k)) \<and> length sent = Suc k"
  proof (intro allI impI)
    fix k
    assume k: "k < length sent"
      and h: "judge (sent ! k) (exchange_at xs k) = Retry
          \<and> count_list (take (Suc k) sent) (sent ! k) = limit"
    from h have "count_list (take (Suc k) sent) (sent ! k)
        + (if sent ! k = 0 then 0 else 0) = limit"
      by simp
    with k h show "st = Failed (PageTransferFailed (sent ! k)) \<and> length sent = Suc k"
      unfolding st sent by (intro transfer_pages_limit_reached) simp_all
  qed
  have e: "\<forall>j. st = Failed (PageTransferFailed j) \<longrightarrow> j < n \<and> count_list sent j = limit"
  proof (intro allI impI)
    fix j
    assume "st = Failed (PageTransferFailed j)"
    then have "fst (transfer_pages n limit xs 0 0) = Failed (PageTransferFailed j)"
      by (simp add: st)
    then have "j < n \<and> count_list (snd (transfer_pages n limit xs 0 0)) j
        + (if j = 0 then 0 else 0) = limit"
      by (rule transfer_pages_failed) simp
    then show "j < n \<and> count_list sent j = limit"
      by (simp add: sent)
  qed
  have f: "st = Verifying \<longrightarrow> set sent = {0..<n}"
    unfolding st sent by (simp add: transfer_pages_verifying)
  from a b c d e f show ?thesis
    by blast
qed

theorem page_index_sequence_witness:
  "transfer_pages 3 3 failing_link 0 0 = (Failed (PageTransferFailed 1), [0, 1, 1, 1])
   \<and> count_list [0, 1, 1, 1] (1::nat) = 3
   \<and> transfer_pages 3 3 noisy_link 0 0 = (Verifying, [0, 1, 1, 1, 2])
   \<and> set [0, 1, 1, 1, 2] = {0..<(3::nat)}"
proof -
  from page_index_sequence [OF transfer_pages_failing_link]
  have "count_list [0, 1, 1, 1] (1::nat) = 3"
    by blast
  moreover from page_index_sequence [OF transfer_pages_noisy_link]
  have "set [0, 1, 1, 1, 2] = {0..<(3::nat)}"
    by blast
  ultimately show ?thesis
    using transfer_pages_failing_link transfer_pages_noisy_link by blast
qed

end
